theory Spec2Isabelle
  imports Main "HOL-Library.Word"
begin

unbundle bit_operations_syntax

section \<open>The word codec of bitset.h\<close>

text \<open>
  \<^verbatim>\<open>bitset_word\<close> and (without \<^verbatim>\<open>BITSET_64BIT_OFFSETS\<close>) \<^verbatim>\<open>bitset_offset\<close> are
  \<^verbatim>\<open>uint32_t\<close>. The macros of the header are translated one by one; the sizes are
  natural numbers, the words are 32-bit machine words.
\<close>

type_synonym bitset_word = "32 word"
type_synonym bitset_offset = "32 word"
type_synonym byte = "8 word"

definition BITSET_WORD_LENGTH :: nat where
  "BITSET_WORD_LENGTH = 4 * 8"

definition BITSET_LOG2 :: "nat \<Rightarrow> nat" where
  "BITSET_LOG2 v = 8 - 90 div ((v div 4 + 14) OR 1) - 2 div (v div 2 + 1)"

definition BITSET_POSITION_LENGTH :: nat where
  "BITSET_POSITION_LENGTH = BITSET_LOG2 BITSET_WORD_LENGTH"

definition BITSET_FILL_BIT :: bitset_word where
  "BITSET_FILL_BIT = push_bit (BITSET_WORD_LENGTH - 1) 1"

definition BITSET_SPAN_LENGTH :: nat where
  "BITSET_SPAN_LENGTH = BITSET_WORD_LENGTH - BITSET_POSITION_LENGTH - 1"

definition BITSET_POSITION_MASK :: bitset_word where
  "BITSET_POSITION_MASK = push_bit BITSET_SPAN_LENGTH (push_bit BITSET_POSITION_LENGTH 1 - 1)"

definition BITSET_LENGTH_MASK :: bitset_word where
  "BITSET_LENGTH_MASK = push_bit BITSET_SPAN_LENGTH 1 - 1"

definition BITSET_LITERAL_LENGTH :: nat where
  "BITSET_LITERAL_LENGTH = BITSET_WORD_LENGTH - 1"

definition BITSET_IS_FILL_WORD :: "bitset_word \<Rightarrow> bool" where
  "BITSET_IS_FILL_WORD w \<longleftrightarrow> w AND BITSET_FILL_BIT \<noteq> 0"

definition BITSET_IS_LITERAL_WORD :: "bitset_word \<Rightarrow> bool" where
  "BITSET_IS_LITERAL_WORD w \<longleftrightarrow> w AND BITSET_FILL_BIT = 0"

definition BITSET_GET_LENGTH :: "bitset_word \<Rightarrow> bitset_word" where
  "BITSET_GET_LENGTH w = w AND BITSET_LENGTH_MASK"

definition BITSET_SET_LENGTH :: "bitset_word \<Rightarrow> bitset_word \<Rightarrow> bitset_word" where
  "BITSET_SET_LENGTH w len = w OR len"

definition BITSET_GET_POSITION :: "bitset_word \<Rightarrow> bitset_word" where
  "BITSET_GET_POSITION w = drop_bit BITSET_SPAN_LENGTH (w AND BITSET_POSITION_MASK)"

definition BITSET_SET_POSITION :: "bitset_word \<Rightarrow> bitset_word \<Rightarrow> bitset_word" where
  "BITSET_SET_POSITION w pos = w OR push_bit BITSET_SPAN_LENGTH pos"

definition BITSET_UNSET_POSITION :: "bitset_word \<Rightarrow> bitset_word" where
  "BITSET_UNSET_POSITION w = w AND NOT BITSET_POSITION_MASK"

definition BITSET_CREATE_FILL :: "bitset_word \<Rightarrow> bitset_word \<Rightarrow> bitset_word" where
  "BITSET_CREATE_FILL len pos = BITSET_SET_POSITION (BITSET_FILL_BIT OR len) (pos + 1)"

definition BITSET_CREATE_EMPTY_FILL :: "bitset_word \<Rightarrow> bitset_word" where
  "BITSET_CREATE_EMPTY_FILL len = BITSET_FILL_BIT OR len"

text \<open>
  \<^verbatim>\<open>((1 << (BITSET_WORD_LENGTH - 2)) >> (bit))\<close>: the shifted value is the positive
  \<^verbatim>\<open>int\<close> \<open>2 ^ 30\<close>, so the right shift is a logical one. The macro is used for
  \<open>bit \<le> 30\<close>.
\<close>

definition BITSET_CREATE_LITERAL :: "nat \<Rightarrow> bitset_word" where
  "BITSET_CREATE_LITERAL b = drop_bit b (push_bit (BITSET_WORD_LENGTH - 2) 1)"

definition BITSET_MAX_LENGTH :: bitset_word where
  "BITSET_MAX_LENGTH = BITSET_LENGTH_MASK"

definition P1 :: bitset_word where "P1 = 0x7FFFFFFF"
definition P2 :: bitset_word where "P2 = 0x55555555"
definition P3 :: bitset_word where "P3 = 0x33333333"
definition P4 :: bitset_word where "P4 = 0x0F0F0F0F"
definition P5 :: bitset_word where "P5 = 0x01010101"

text \<open>
  \<^verbatim>\<open>BITSET_POP_COUNT(c,w)\<close> is a statement macro that overwrites \<open>w\<close> step by step and
  adds the result to \<open>c\<close>; the function returns the new value of \<open>c\<close>.
\<close>

definition BITSET_POP_COUNT :: "bitset_word \<Rightarrow> bitset_word \<Rightarrow> bitset_word" where
  "BITSET_POP_COUNT c w =
     (let w1 = w AND P1;
          w2 = w1 - (drop_bit 1 w1 AND P2);
          w3 = (w2 AND P3) + (drop_bit 2 w2 AND P3);
          w4 = (w3 + drop_bit 4 w3) AND P4
      in c + drop_bit (BITSET_WORD_LENGTH - 8) (w4 * P5))"

section \<open>The bitset structure\<close>

text \<open>
  A bitset is its \<^verbatim>\<open>length\<close> meaningful words; the capacity and the reference count
  of the structure play no part here.
\<close>

record bitset =
  b_words :: "bitset_word list"

definition b_length :: "bitset \<Rightarrow> nat" where
  "b_length b = length (b_words b)"

section \<open>The bitset engine\<close>

text \<open>
  \<^verbatim>\<open>bitset.c\<close>, which implements \<^verbatim>\<open>bitset_get\<close> and \<^verbatim>\<open>bitset_set_to\<close>, is not among the
  sources; the header declares them. The definitions of this section follow section 4.2
  of the specification, on top of the macros of the header. An offset is a natural
  number here, block \<open>o div 31\<close> and position \<open>o mod 31\<close> in the block.
\<close>

text \<open>Modelled from the spec: \<open>fill_length(w)\<close> of the word codec, by \<^verbatim>\<open>BITSET_GET_LENGTH\<close>.\<close>

definition fill_length :: "bitset_word \<Rightarrow> nat" where
  "fill_length w = unat (BITSET_GET_LENGTH w)"

text \<open>Modelled from the spec: \<open>fill_position(w)\<close>, the stored value (bit index + 1, or 0).\<close>

definition fill_position :: "bitset_word \<Rightarrow> nat" where
  "fill_position w = unat (BITSET_GET_POSITION w)"

text \<open>
  Modelled from the spec: \<open>make_fill(L, pos)\<close>; \<open>pos = 31\<close> stands for no absorbed
  bit. Callers keep \<open>L\<close> within \<^verbatim>\<open>BITSET_MAX_LENGTH\<close>.
\<close>

definition make_fill :: "nat \<Rightarrow> nat \<Rightarrow> bitset_word" where
  "make_fill L pos =
     (if pos = 31 then BITSET_CREATE_EMPTY_FILL (of_nat L)
      else BITSET_CREATE_FILL (of_nat L) (of_nat pos))"

text \<open>Modelled from the spec: \<open>set_fill_position(w, pos)\<close> overwrites \<open>P := pos + 1\<close>.\<close>

definition set_fill_position :: "bitset_word \<Rightarrow> nat \<Rightarrow> bitset_word" where
  "set_fill_position w pos = BITSET_SET_POSITION (BITSET_UNSET_POSITION w) (of_nat (pos + 1))"

text \<open>Modelled from the spec: \<open>clear_fill_position(w)\<close> zeroes \<open>P\<close>.\<close>

definition clear_fill_position :: "bitset_word \<Rightarrow> bitset_word" where
  "clear_fill_position w = BITSET_UNSET_POSITION w"

text \<open>Modelled from the spec: whether position \<open>pos\<close> of a literal is set.\<close>

definition literal_bit :: "bitset_word \<Rightarrow> nat \<Rightarrow> bool" where
  "literal_bit w pos \<longleftrightarrow> w AND BITSET_CREATE_LITERAL pos \<noteq> 0"

text \<open>
  Modelled from the spec: the first set position of a literal (0 for a literal with no
  bit set, where it is not used).
\<close>

definition first_set_bit :: "bitset_word \<Rightarrow> nat" where
  "first_set_bit w = (case find (literal_bit w) [0..<31] of Some p \<Rightarrow> p | None \<Rightarrow> 0)"

text \<open>
  Modelled from the spec: the walk of \<open>get(b, o)\<close>. \<open>blk\<close> is the number of blocks
  still to skip before the block of the offset. A literal covers one block; a fill
  covers its \<open>L\<close> clean blocks and, when \<open>P > 0\<close>, the absorbed block after them.
  When the words run out, the answer is false.
\<close>

fun get_walk :: "bitset_word list \<Rightarrow> nat \<Rightarrow> nat \<Rightarrow> bool" where
  "get_walk [] blk pos = False"
| "get_walk (w # ws) blk pos =
     (if BITSET_IS_FILL_WORD w then
        (if blk < fill_length w then False
         else if fill_position w = 0 then get_walk ws (blk - fill_length w) pos
         else if blk = fill_length w then pos = fill_position w - 1
         else get_walk ws (blk - fill_length w - 1) pos)
      else if blk = 0 then literal_bit w pos
      else get_walk ws (blk - 1) pos)"

text \<open>Modelled from the spec: \<open>get(b, o)\<close>.\<close>

definition bitset_get :: "bitset \<Rightarrow> nat \<Rightarrow> bool" where
  "bitset_get b offset =
     get_walk (b_words b) (offset div BITSET_LITERAL_LENGTH) (offset mod BITSET_LITERAL_LENGTH)"

text \<open>
  Modelled from the spec: a block with the single bit \<open>pos\<close> after the words \<open>pre\<close>.
  It is folded into a last fill of \<open>pre\<close> with \<open>P = 0\<close> (canonical form, rule 4),
  and is a literal otherwise.
\<close>

definition emit_bit :: "bitset_word list \<Rightarrow> nat \<Rightarrow> bitset_word list" where
  "emit_bit pre pos =
     (if pre \<noteq> [] \<and> BITSET_IS_FILL_WORD (last pre) \<and> fill_position (last pre) = 0
      then butlast pre @ [set_fill_position (last pre) pos]
      else pre @ [BITSET_CREATE_LITERAL pos])"

text \<open>
  Modelled from the spec: the literal \<open>w\<close> after the words \<open>pre\<close>, once one of its
  bits was written (case 2 of \<open>set\<close>): an all-zero literal lengthens a last fill with
  \<open>P = 0\<close> by one block, a literal with one bit becomes the position of such a fill.
\<close>

definition emit_literal :: "bitset_word list \<Rightarrow> bitset_word \<Rightarrow> bitset_word list" where
  "emit_literal pre w =
     (if pre \<noteq> [] \<and> BITSET_IS_FILL_WORD (last pre) \<and> fill_position (last pre) = 0 then
        (if w = 0 \<and> fill_length (last pre) < unat BITSET_MAX_LENGTH
           then butlast pre @ [make_fill (fill_length (last pre) + 1) 31]
         else if unat (BITSET_POP_COUNT 0 w) = 1
           then butlast pre @ [set_fill_position (last pre) (first_set_bit w)]
         else pre @ [w])
      else pre @ [w])"

text \<open>
  Modelled from the spec: the fills that describe a gap of \<open>gap\<close> clean blocks
  followed by the bit \<open>pos\<close> (case 1 of \<open>set\<close>), in several fills when the gap
  exceeds \<^verbatim>\<open>BITSET_MAX_LENGTH\<close>.
\<close>

definition gap_fills :: "nat \<Rightarrow> nat \<Rightarrow> bitset_word list" where
  "gap_fills gap pos =
     (if gap \<le> unat BITSET_MAX_LENGTH then [make_fill gap pos]
      else replicate (gap div unat BITSET_MAX_LENGTH) (make_fill (unat BITSET_MAX_LENGTH) 31)
           @ [make_fill (gap mod unat BITSET_MAX_LENGTH) pos])"

text \<open>
  Modelled from the spec: the walk of \<open>set(b, o, v)\<close>, with its five cases. \<open>pre\<close>
  holds the words already walked, \<open>blk\<close> the blocks still to skip. The result is
  the previous value of the bit and the new words.
  \<^item> Past the end: nothing to do for \<open>v = false\<close>; else the gap and the bit are
    appended.
  \<^item> In a literal: the bit is written.
  \<^item> In the clean span of a fill, \<open>v = false\<close>: no change.
  \<^item> In the clean span of a fill, \<open>v = true\<close>: a head fill of \<open>k = blk\<close> blocks with
    the bit as its position (for \<open>k = 0\<close>, the bit alone), then a trailing fill of
    \<open>L - k - 1\<close> blocks if that is positive; the position of the split fill stays with
    the trailing fill, or becomes a literal when there is none.
  \<^item> In the absorbed block of a fill: no change when the bit has the value already;
    clearing the absorbed bit zeroes the position and leaves an empty block before the
    words that follow; setting another bit makes the block a literal with both bits.
\<close>

fun set_walk ::
  "bitset_word list \<Rightarrow> bitset_word list \<Rightarrow> nat \<Rightarrow> nat \<Rightarrow> bool \<Rightarrow> bool \<times> bitset_word list" where
  "set_walk pre [] blk pos v =
     (if \<not> v then (False, pre)
      else if blk = 0 then (False, emit_bit pre pos)
      else (False, pre @ gap_fills blk pos))"
| "set_walk pre (w # ws) blk pos v =
     (if BITSET_IS_FILL_WORD w then
        (if blk < fill_length w then
           (if \<not> v then (False, pre @ w # ws)
            else (False,
              (if blk = 0 then emit_bit pre pos else pre @ [make_fill blk pos])
              @ (if fill_length w - blk - 1 > 0
                   then [make_fill (fill_length w - blk - 1)
                           (if fill_position w = 0 then 31 else fill_position w - 1)]
                 else if fill_position w > 0
                   then [BITSET_CREATE_LITERAL (fill_position w - 1)]
                 else [])
              @ ws))
         else if fill_position w = 0 then set_walk (pre @ [w]) ws (blk - fill_length w) pos v
         else if blk = fill_length w then
           (if pos = fill_position w - 1 then
              (if v then (True, pre @ w # ws)
               else (True,
                 pre @ (if fill_length w > 0 then [clear_fill_position w] else [])
                 @ (if ws = [] then [] else [0]) @ ws))
            else if v then
              (False,
                 pre @ (if fill_length w > 0 then [clear_fill_position w] else [])
                 @ [BITSET_CREATE_LITERAL (fill_position w - 1) OR BITSET_CREATE_LITERAL pos]
                 @ ws)
            else (False, pre @ w # ws))
         else set_walk (pre @ [w]) ws (blk - fill_length w - 1) pos v)
      else if blk = 0 then
        (literal_bit w pos,
         emit_literal pre
           (if v then w OR BITSET_CREATE_LITERAL pos else w AND NOT (BITSET_CREATE_LITERAL pos))
         @ ws)
      else set_walk (pre @ [w]) ws (blk - 1) pos v)"

text \<open>Modelled from the spec: \<open>set(b, o, v)\<close>, the previous value and the new bitset.\<close>

definition bitset_set_to :: "bitset \<Rightarrow> nat \<Rightarrow> bool \<Rightarrow> bool \<times> bitset" where
  "bitset_set_to b offset v =
     (case set_walk [] (b_words b) (offset div BITSET_LITERAL_LENGTH)
             (offset mod BITSET_LITERAL_LENGTH) v of
        (previous, ws) \<Rightarrow> (previous, b\<lparr>b_words := ws\<rparr>))"

section \<open>Reference population count\<close>

text \<open>
  The number of one bits of a natural number, and the two notions the proof about
  \<^verbatim>\<open>BITSET_POP_COUNT\<close> is stated with: \<open>msk B c n\<close> is the constant with the digit
  \<open>c\<close> in each of \<open>n\<close> base-\<open>B\<close> fields (\<open>msk 4 1 16\<close> is \<^verbatim>\<open>P2\<close>), and
  \<open>spread B n x\<close> replaces each of the \<open>n\<close> low base-\<open>B\<close> fields of \<open>x\<close> by its
  number of one bits.
\<close>

fun pcn :: "nat \<Rightarrow> nat" where
  "pcn n = (if n = 0 then 0 else n mod 2 + pcn (n div 2))"

declare pcn.simps [simp del]

fun msk :: "nat \<Rightarrow> nat \<Rightarrow> nat \<Rightarrow> nat" where
  "msk B c 0 = 0"
| "msk B c (Suc n) = c + B * msk B c n"

fun spread :: "nat \<Rightarrow> nat \<Rightarrow> nat \<Rightarrow> nat" where
  "spread B 0 x = 0"
| "spread B (Suc n) x = pcn (x mod B) + B * spread B n (x div B)"

section \<open>The bitset list (list.c)\<close>

subsection \<open>Length-prefixed integers\<close>

text \<open>
  \<^verbatim>\<open>(unsigned char)x\<close> for an \<^verbatim>\<open>unsigned x\<close>, promoted back to \<^verbatim>\<open>int\<close> as C does before
  any arithmetic: the low eight bits of \<open>x\<close> as a 32-bit value. A cast binds tighter
  than \<^verbatim>\<open>>>\<close> and \<^verbatim>\<open>&\<close>, so \<^verbatim>\<open>(unsigned char)length >> 8\<close> shifts the value already cut
  to eight bits.
\<close>

definition uchar :: "32 word \<Rightarrow> 32 word" where
  "uchar x = ucast (ucast x :: byte)"

definition bitset_encoded_length_required_bytes :: "32 word \<Rightarrow> nat" where
  "bitset_encoded_length_required_bytes len =
     (if len < push_bit 6 1 then 1
      else if len < push_bit 14 1 then 2
      else if len < push_bit 22 1 then 3
      else 4)"

text \<open>
  The bytes \<^verbatim>\<open>bitset_encoded_length_bytes\<close> stores at \<^verbatim>\<open>buffer[0]\<close>, \<^verbatim>\<open>buffer[1]\<close>, ...;
  storing an \<^verbatim>\<open>int\<close> into a \<^verbatim>\<open>char\<close> keeps its low eight bits.
\<close>

definition bitset_encoded_length_bytes :: "32 word \<Rightarrow> byte list" where
  "bitset_encoded_length_bytes len =
     (if len < push_bit 6 1 then
        [ucast (uchar len)]
      else if len < push_bit 14 1 then
        [ucast (0x40 OR drop_bit 8 (uchar len)),
         ucast (uchar len AND 0xFF)]
      else if len < push_bit 22 1 then
        [ucast (0x80 OR drop_bit 16 (uchar len)),
         ucast (drop_bit 8 (uchar len) AND 0xFF),
         ucast (uchar len AND 0xFF)]
      else
        [ucast (0xC0 OR drop_bit 24 (uchar len)),
         ucast (drop_bit 16 (uchar len) AND 0xFF),
         ucast (drop_bit 8 (uchar len) AND 0xFF),
         ucast (uchar len AND 0xFF)])"

text \<open>
  A \<^verbatim>\<open>const char *\<close> is the list of the bytes from the pointer to the end of the bytes
  in use; \<^verbatim>\<open>buffer[k]\<close> past that end is no value. A plain \<^verbatim>\<open>char\<close> is promoted with its
  sign (\<open>scast\<close>); the mask \<^verbatim>\<open>0xC0\<close> keeps bits 6 and 7 only.
\<close>

definition byte_at :: "byte list \<Rightarrow> nat \<Rightarrow> byte option" where
  "byte_at buffer k = (if k < length buffer then Some (buffer ! k) else None)"

definition encoded_type :: "byte \<Rightarrow> 32 word" where
  "encoded_type b0 = scast b0 AND 0xC0"

definition bitset_encoded_length_size :: "byte list \<Rightarrow> nat option" where
  "bitset_encoded_length_size buffer =
     (case byte_at buffer 0 of
        None \<Rightarrow> None
      | Some b0 \<Rightarrow>
          Some (if encoded_type b0 = 0x00 then 1
                else if encoded_type b0 = 0x40 then 2
                else if encoded_type b0 = 0x80 then 3
                else 4))"

definition bitset_encoded_length :: "byte list \<Rightarrow> 32 word option" where
  "bitset_encoded_length buffer =
     (case byte_at buffer 0 of
        None \<Rightarrow> None
      | Some b0 \<Rightarrow>
          if encoded_type b0 = 0x00 then
            Some (ucast b0)
          else if encoded_type b0 = 0x40 then
            (case byte_at buffer 1 of
               None \<Rightarrow> None
             | Some b1 \<Rightarrow> Some (push_bit 8 (ucast b0 AND 0x3F) + ucast b1))
          else if encoded_type b0 = 0x80 then
            (case (byte_at buffer 1, byte_at buffer 2) of
               (Some b1, Some b2) \<Rightarrow>
                 Some (push_bit 16 (ucast b0 AND 0x3F) + push_bit 8 (ucast b1) + ucast b2)
             | _ \<Rightarrow> None)
          else
            (case (byte_at buffer 1, byte_at buffer 2, byte_at buffer 3) of
               (Some b1, Some b2, Some b3) \<Rightarrow>
                 Some (push_bit 24 (ucast b0 AND 0x3F) + push_bit 16 (ucast b1)
                       + push_bit 8 (ucast b2) + ucast b3)
             | _ \<Rightarrow> None))"

subsection \<open>The list\<close>

text \<open>
  \<^verbatim>\<open>bitset/list.h\<close>, which declares the structure, is not among the sources; the
  fields are those that list.c reads and writes; the counts and offsets hold
  \<^verbatim>\<open>unsigned\<close> values, whose arithmetic wraps at \<open>2 ^ 32\<close>. \<open>l_buffer\<close> holds the bytes of the buffer that are in
  use and allocated, \<^verbatim>\<open>c->buffer[0 .. min(c->length, c->size))\<close>; it is empty for
  \<^verbatim>\<open>NULL\<close>. \<open>l_tail\<close> is the index of the tail entry in the buffer, or \<open>None\<close> for
  \<^verbatim>\<open>NULL\<close>.
\<close>

record bitset_list =
  l_buffer :: "byte list"
  l_length :: "32 word"
  l_size :: "32 word"
  l_count :: "32 word"
  l_tail_offset :: "32 word"
  l_tail :: "nat option"

text \<open>
  \<open>Exited n s\<close>: the process called \<^verbatim>\<open>exit(n)\<close>, the list being \<open>s\<close> at that point
  (\<^verbatim>\<open>bitset_oom()\<close> is \<^verbatim>\<open>fprintf(stderr, ...), exit(1)\<close>). \<open>Undefined\<close>: the function
  wrote outside the bytes it had allocated.
\<close>

datatype 'a outcome = Returned 'a | Exited nat 'a | Undefined

definition bitset_list_new :: bitset_list where
  "bitset_list_new =
     \<lparr>l_buffer = [], l_length = 0, l_size = 0, l_count = 0, l_tail_offset = 0, l_tail = None\<rparr>"

definition BITSET_NEXT_POW2 :: "32 word \<Rightarrow> 32 word" where
  "BITSET_NEXT_POW2 s =
     (let d = s;
          d = d - 1;
          d = d OR drop_bit 1 d;
          d = d OR drop_bit 2 d;
          d = d OR drop_bit 4 d;
          d = d OR drop_bit 8 d;
          d = d OR drop_bit 16 d
      in d + 1)"

text \<open>
  The first \<open>n\<close> bytes of a buffer whose initialised bytes are \<open>bs\<close>: the bytes that
  \<^verbatim>\<open>malloc\<close> and \<^verbatim>\<open>realloc\<close> add are indeterminate until written; they stand as zero
  bytes here, and \<^verbatim>\<open>bitset_list_push\<close> overwrites every one of them.
\<close>

definition bytes_in_use :: "byte list \<Rightarrow> nat \<Rightarrow> byte list" where
  "bytes_in_use bs n = take n bs @ replicate (n - length bs) 0"

text \<open>
  \<open>alloc n\<close> tells whether the request for \<open>n\<close> bytes that the function makes of
  \<^verbatim>\<open>malloc\<close> or \<^verbatim>\<open>realloc\<close> is granted (a pointer other than \<^verbatim>\<open>NULL\<close>); a request for
  no bytes, which \<^verbatim>\<open>BITSET_NEXT_POW2\<close> makes of a length above \<open>2 ^ 31\<close>, may go either
  way. \<^verbatim>\<open>malloc\<close> gives a new buffer, \<^verbatim>\<open>realloc\<close> keeps the bytes there are, as far as
  the new size goes. When the request is refused, \<^verbatim>\<open>c->buffer\<close> is \<^verbatim>\<open>NULL\<close> and
  \<^verbatim>\<open>bitset_oom()\<close> ends the process.
\<close>

definition bitset_list_resize :: "(nat \<Rightarrow> bool) \<Rightarrow> bitset_list \<Rightarrow> 32 word \<Rightarrow> bitset_list outcome" where
  "bitset_list_resize alloc c len =
     (if len > l_size c then
        let next_size = BITSET_NEXT_POW2 len in
        if alloc (unat next_size) then
          Returned (c\<lparr>l_buffer := bytes_in_use (if l_length c = 0 then [] else l_buffer c)
                                    (min (unat len) (unat next_size)),
                      l_size := next_size,
                      l_length := len\<rparr>)
        else Exited 1 (c\<lparr>l_buffer := []\<rparr>)
      else Returned (c\<lparr>l_buffer := bytes_in_use (l_buffer c) (unat len), l_length := len\<rparr>))"

definition bitset_list_length :: "bitset_list \<Rightarrow> 32 word" where
  "bitset_list_length c = l_length c"

definition bitset_list_count :: "bitset_list \<Rightarrow> 32 word" where
  "bitset_list_count c = l_count c"

text \<open>Writing \<open>bs\<close> at \<^verbatim>\<open>buffer + pos\<close>.\<close>

definition write_bytes :: "byte list \<Rightarrow> nat \<Rightarrow> byte list \<Rightarrow> byte list" where
  "write_bytes buffer pos bs = take pos buffer @ bs @ drop (pos + length bs) buffer"

text \<open>The bytes of a word array in memory (little-endian, as the buffer format is).\<close>

definition word_bytes :: "bitset_word \<Rightarrow> byte list" where
  "word_bytes w = [ucast w, ucast (drop_bit 8 w), ucast (drop_bit 16 w), ucast (drop_bit 24 w)]"

definition words_bytes :: "bitset_word list \<Rightarrow> byte list" where
  "words_bytes ws = concat (map word_bytes ws)"

text \<open>
  \<^verbatim>\<open>bitset_list_push\<close>. The byte total handed to \<^verbatim>\<open>bitset_list_resize\<close> is cut to its
  \<^verbatim>\<open>unsigned\<close> parameter; \<^verbatim>\<open>b->length\<close> is cut to \<^verbatim>\<open>unsigned\<close> where the two header
  functions take it. The entry is written at \<^verbatim>\<open>c->buffer + length\<close>, \<open>length\<close> being the
  old byte count: the \<open>offset_bytes + length_bytes + 4 * b->length\<close> bytes from there
  on must lie within the \<open>l_size\<close> bytes of the buffer, which they do not when the total
  wrapped or when \<^verbatim>\<open>BITSET_NEXT_POW2\<close> gave the size 0.
\<close>

definition bitset_list_push ::
  "(nat \<Rightarrow> bool) \<Rightarrow> bitset_list \<Rightarrow> bitset \<Rightarrow> 32 word \<Rightarrow> bitset_list outcome" where
  "bitset_list_push alloc c b offset =
     (if offset < l_tail_offset c then Exited 1 c
      else
        let len = l_length c;
            relative_offset = offset - l_tail_offset c;
            c = c\<lparr>l_count := l_count c + 1\<rparr>;
            length_bytes = bitset_encoded_length_required_bytes (of_nat (b_length b));
            offset_bytes = bitset_encoded_length_required_bytes relative_offset
        in case bitset_list_resize alloc c
                  (len + of_nat length_bytes + of_nat offset_bytes + of_nat (b_length b) * 4) of
             Returned c \<Rightarrow>
               if unat len + offset_bytes + length_bytes + b_length b * 4 \<le> unat (l_size c) then
                 let c = c\<lparr>l_tail := Some (unat len), l_tail_offset := offset\<rparr>;
                     buf = write_bytes (l_buffer c) (unat len)
                             (bitset_encoded_length_bytes relative_offset);
                     buf = write_bytes buf (unat len + offset_bytes)
                             (bitset_encoded_length_bytes (of_nat (b_length b)));
                     buf = (if b_length b \<noteq> 0
                            then write_bytes buf (unat len + offset_bytes + length_bytes)
                                   (words_bytes (b_words b))
                            else buf)
                 in Returned (c\<lparr>l_buffer := buf\<rparr>)
               else Undefined
           | Exited n c \<Rightarrow> Exited n c
           | Undefined \<Rightarrow> Undefined)"

text \<open>
  The vocabulary of the statements about \<^verbatim>\<open>bitset_list_push\<close>: the bytes of the entry
  it appends, the byte count it hands to \<^verbatim>\<open>bitset_list_resize\<close>, and the case that the
  buffer must grow and the allocator refuses.
\<close>

definition entry_size :: "bitset_list \<Rightarrow> bitset \<Rightarrow> 32 word \<Rightarrow> nat" where
  "entry_size c b offset =
     bitset_encoded_length_required_bytes (offset - l_tail_offset c)
     + bitset_encoded_length_required_bytes (of_nat (b_length b))
     + b_length b * 4"

definition pushed_length :: "bitset_list \<Rightarrow> bitset \<Rightarrow> 32 word \<Rightarrow> 32 word" where
  "pushed_length c b offset = l_length c + of_nat (entry_size c b offset)"

definition out_of_memory :: "(nat \<Rightarrow> bool) \<Rightarrow> bitset_list \<Rightarrow> bitset \<Rightarrow> 32 word \<Rightarrow> bool" where
  "out_of_memory alloc c b offset \<longleftrightarrow>
     l_size c < pushed_length c b offset
     \<and> \<not> alloc (unat (BITSET_NEXT_POW2 (pushed_length c b offset)))"

text \<open>The allocator that grants every request, and the one that refuses every request.\<close>

definition granted :: "nat \<Rightarrow> bool" where
  "granted n = True"

definition refused :: "nat \<Rightarrow> bool" where
  "refused n = False"

lemma bitset_encoded_length_size_pos:
  "bitset_encoded_length_size buffer = Some n \<Longrightarrow> 1 \<le> n \<and> n \<le> 4"
  by (auto simp add: bitset_encoded_length_size_def split: option.splits if_splits)

lemma bitset_encoded_length_size_in_buffer:
  "bitset_encoded_length_size (drop p buffer) = Some n \<Longrightarrow> p < length buffer"
  by (auto simp add: bitset_encoded_length_size_def byte_at_def split: option.splits if_splits)

lemma bitset_encoded_length_size_advance:
  assumes "bitset_encoded_length_size (drop p buffer) = Some n"
  shows "length buffer - (p + n + k + m) < length buffer - p"
proof -
  from assms have "p < length buffer"
    by (rule bitset_encoded_length_size_in_buffer)
  moreover from assms have "1 \<le> n"
    by (auto dest: bitset_encoded_length_size_pos)
  ultimately show ?thesis
    by simp
qed

text \<open>
  The loop of \<^verbatim>\<open>bitset_list_new_buffer\<close>: \<open>i\<close> is the \<^verbatim>\<open>unsigned\<close> loop counter and
  \<open>buf\<close> the position of the pointer \<^verbatim>\<open>buf\<close> in \<^verbatim>\<open>c->buffer\<close>. Both advance by the same
  amounts, the counter modulo \<open>2 ^ 32\<close>; \<^verbatim>\<open>length *= sizeof(bitset_word)\<close> stores the
  product in an \<^verbatim>\<open>unsigned\<close>, so it wraps as well. A header read past the bytes in use
  gives \<open>None\<close>.
\<close>

function new_buffer_loop :: "32 word \<Rightarrow> nat \<Rightarrow> bitset_list \<Rightarrow> bitset_list option" where
  "new_buffer_loop i buf c =
     (if i < l_length c then
        (case bitset_encoded_length (drop buf (l_buffer c)) of
           None \<Rightarrow> None
         | Some delta \<Rightarrow>
        (case bitset_encoded_length_size (drop buf (l_buffer c)) of
           None \<Rightarrow> None
         | Some offset_bytes \<Rightarrow>
        (case bitset_encoded_length (drop (buf + offset_bytes) (l_buffer c)) of
           None \<Rightarrow> None
         | Some len \<Rightarrow>
        (case bitset_encoded_length_size (drop (buf + offset_bytes) (l_buffer c)) of
           None \<Rightarrow> None
         | Some length_bytes \<Rightarrow>
             new_buffer_loop (i + (of_nat offset_bytes + of_nat length_bytes + len * 4))
               (buf + offset_bytes + length_bytes + unat (len * 4))
               (c\<lparr>l_tail := Some buf,
                  l_tail_offset := l_tail_offset c + delta,
                  l_count := l_count c + 1\<rparr>)))))
      else Some c)"
  by pat_completeness auto
termination
  by (relation "measure (\<lambda>(i, buf, c). length (l_buffer c) - buf)")
     (auto intro: bitset_encoded_length_size_advance)

declare new_buffer_loop.simps [simp del]

text \<open>
  \<^verbatim>\<open>bitset_list_new_buffer\<close>, where its two allocations succeed. \<^verbatim>\<open>memcpy\<close> reads \<open>len\<close>
  bytes of the given buffer; a shorter buffer gives \<open>None\<close>.
\<close>

definition bitset_list_new_buffer :: "32 word \<Rightarrow> byte list \<Rightarrow> bitset_list option" where
  "bitset_list_new_buffer len buffer =
     (if length buffer < unat len then None
      else new_buffer_loop 0 0
             \<lparr>l_buffer = take (unat len) buffer, l_length = len, l_size = len, l_count = 0,
              l_tail_offset = 0, l_tail = None\<rparr>)"

subsection \<open>The iterator\<close>

text \<open>
  Modelled from the spec: \<^verbatim>\<open>bitset/list.h\<close> is not among the sources; it declares the
  structures and the two sentinels of an open window. The spec calls them "open"
  sentinels; \<^verbatim>\<open>bitset_list_iterator_new\<close> tests \<^verbatim>\<open>!end\<close> for the open end and
  \<^verbatim>\<open>offset >= start\<close> for the start, so both are 0.
\<close>

definition BITSET_LIST_START :: "32 word" where
  "BITSET_LIST_START = 0"

definition BITSET_LIST_END :: "32 word" where
  "BITSET_LIST_END = 0"

text \<open>
  The iterator structure is declared in \<^verbatim>\<open>bitset/list.h\<close> as well; its fields are
  those that list.c reads and writes, the counts being \<^verbatim>\<open>unsigned\<close> values. A bitset of
  the iterator borrows its words from the list's buffer: \<open>v_words\<close> is the index in
  \<open>l_buffer\<close> where they start. An array slot that was allocated and not yet written
  is \<open>None\<close>. This subsection follows the iterator where every allocation succeeds, a
  request for no bytes included.
\<close>

record bitset_view =
  v_words :: nat
  v_length :: nat
  v_size :: nat

record bitset_list_iterator =
  i_bitsets :: "bitset_view option list"
  i_offsets :: "32 word option list"
  i_length :: "32 word"
  i_size :: "32 word"

definition bitset_list_iterator_resize ::
  "bitset_list_iterator \<Rightarrow> 32 word \<Rightarrow> bitset_list_iterator" where
  "bitset_list_iterator_resize i len =
     (let i1 = (if len > i_size i then
                  let next_size = BITSET_NEXT_POW2 len in
                  (if i_length i = 0
                   then i\<lparr>i_bitsets := replicate (unat next_size) None,
                          i_offsets := replicate (unat next_size) None\<rparr>
                   else i\<lparr>i_bitsets := take (unat next_size) (i_bitsets i)
                                          @ replicate (unat next_size - length (i_bitsets i)) None,
                          i_offsets := take (unat next_size) (i_offsets i)
                                          @ replicate (unat next_size - length (i_offsets i)) None\<rparr>)
                  \<lparr>i_size := next_size\<rparr>
                else i)
      in i1\<lparr>i_length := len\<rparr>)"

text \<open>
  The body of the \<^verbatim>\<open>if\<close> in the loop: the entry is stored at index \<open>b\<close>; \<open>None\<close> when
  that index lies outside the arrays.
\<close>

definition iterator_store ::
  "bitset_list_iterator \<Rightarrow> 32 word \<Rightarrow> nat \<Rightarrow> nat \<Rightarrow> 32 word \<Rightarrow> bitset_list_iterator option" where
  "iterator_store i b buffer len offset =
     (let i1 = bitset_list_iterator_resize i (b + 1)
      in if unat b < length (i_bitsets i1) \<and> unat b < length (i_offsets i1)
         then Some (i1\<lparr>i_bitsets := (i_bitsets i1)
                                        [unat b := Some \<lparr>v_words = buffer, v_length = len, v_size = len\<rparr>],
                        i_offsets := (i_offsets i1)[unat b := Some offset]\<rparr>)
         else None)"

text \<open>
  The loop of \<^verbatim>\<open>bitset_list_iterator_new\<close>: \<open>j\<close> is the \<^verbatim>\<open>unsigned\<close> loop counter,
  \<open>buffer\<close> the position of the pointer \<^verbatim>\<open>buffer\<close> in \<^verbatim>\<open>c->buffer\<close>, \<open>b\<close> the number of
  entries stored and \<open>offset\<close> the running absolute offset. The counter advances
  modulo \<open>2 ^ 32\<close>, the pointer does not wrap. A header read past the bytes in use
  gives \<open>None\<close>.
\<close>

function iterator_loop ::
  "bitset_list \<Rightarrow> 32 word \<Rightarrow> 32 word \<Rightarrow> 32 word \<Rightarrow> nat \<Rightarrow> 32 word \<Rightarrow> 32 word
   \<Rightarrow> bitset_list_iterator \<Rightarrow> bitset_list_iterator option" where
  "iterator_loop c start end' j buffer b offset i =
     (if j < l_length c then
        (case bitset_encoded_length (drop buffer (l_buffer c)) of
           None \<Rightarrow> None
         | Some delta \<Rightarrow>
        (case bitset_encoded_length_size (drop buffer (l_buffer c)) of
           None \<Rightarrow> None
         | Some offset_bytes \<Rightarrow>
        (case bitset_encoded_length (drop (buffer + offset_bytes) (l_buffer c)) of
           None \<Rightarrow> None
         | Some len \<Rightarrow>
        (case bitset_encoded_length_size (drop (buffer + offset_bytes) (l_buffer c)) of
           None \<Rightarrow> None
         | Some length_bytes \<Rightarrow>
             if offset + delta \<ge> start \<and> (end' = 0 \<or> offset + delta < end') then
               (case iterator_store i b (buffer + offset_bytes + length_bytes) (unat len)
                       (offset + delta) of
                  None \<Rightarrow> None
                | Some i1 \<Rightarrow>
                    iterator_loop c start end'
                      (j + (of_nat offset_bytes + of_nat length_bytes + len * 4))
                      (buffer + offset_bytes + length_bytes + unat (len * 4))
                      (b + 1) (offset + delta) i1)
             else
               iterator_loop c start end'
                 (j + (of_nat offset_bytes + of_nat length_bytes + len * 4))
                 (buffer + offset_bytes + length_bytes + unat (len * 4))
                 b (offset + delta) i))))
      else Some i)"
  by pat_completeness auto
termination
  by (relation "measure (\<lambda>(c, start, end', j, buffer, b, offset, i). length (l_buffer c) - buffer)")
     (auto intro: bitset_encoded_length_size_advance)

declare iterator_loop.simps [simp del]

definition bitset_list_iterator_new ::
  "bitset_list \<Rightarrow> 32 word \<Rightarrow> 32 word \<Rightarrow> bitset_list_iterator option" where
  "bitset_list_iterator_new c start end' =
     iterator_loop c start end' 0 0 0 0
       (if start = BITSET_LIST_START \<and> end' = BITSET_LIST_END
        then \<lparr>i_bitsets = replicate (unat (l_count c)) None,
              i_offsets = replicate (unat (l_count c)) None,
              i_length = l_count c, i_size = l_count c\<rparr>
        else \<lparr>i_bitsets = [], i_offsets = [], i_length = 0, i_size = 0\<rparr>)"

text \<open>
  What an iterator holds: the offset and the bitset in each of the slots
  \<open>0 .. i_length - 1\<close> of the two arrays, in order. This is how
  \<^verbatim>\<open>bitset_list_iterator_concat\<close> and \<^verbatim>\<open>bitset_list_iterator_free\<close> read an iterator
  (\<^verbatim>\<open>for (j = 0; j < c->length; j++)\<close> over \<^verbatim>\<open>c->bitsets[j]\<close> and \<^verbatim>\<open>c->offsets[j]\<close>).
\<close>

definition iterator_entries :: "bitset_list_iterator \<Rightarrow> (32 word option \<times> bitset_view option) list" where
  "iterator_entries i =
     zip (take (unat (i_length i)) (i_offsets i)) (take (unat (i_length i)) (i_bitsets i))"

text \<open>
  The same with the words of each bitset read back from the buffer of the list
  (little-endian): the offsets and the word streams that the iterator yields.
\<close>

fun bytes_words :: "byte list \<Rightarrow> bitset_word list" where
  "bytes_words (a # b # c # d # bs) =
     (ucast a OR push_bit 8 (ucast b) OR push_bit 16 (ucast c) OR push_bit 24 (ucast d))
       # bytes_words bs"
| "bytes_words _ = []"

definition view_words :: "bitset_list \<Rightarrow> bitset_view \<Rightarrow> bitset_word list" where
  "view_words c v = bytes_words (take (4 * v_length v) (drop (v_words v) (l_buffer c)))"

definition iterator_yields ::
  "bitset_list \<Rightarrow> 32 word \<Rightarrow> 32 word \<Rightarrow> (32 word option \<times> bitset_word list option) list option" where
  "iterator_yields c start end' =
     map_option
       (\<lambda>i. map (\<lambda>(off, v). (off, map_option (view_words c) v)) (iterator_entries i))
       (bitset_list_iterator_new c start end')"

section \<open>Properties of the word codec\<close>

lemma BITSET_WORD_LENGTH_eq: "BITSET_WORD_LENGTH = 32"
  by (simp add: BITSET_WORD_LENGTH_def)

lemma BITSET_POSITION_LENGTH_eq: "BITSET_POSITION_LENGTH = 5"
  by (simp add: BITSET_POSITION_LENGTH_def BITSET_LOG2_def BITSET_WORD_LENGTH_def)

lemma BITSET_SPAN_LENGTH_eq: "BITSET_SPAN_LENGTH = 26"
  by (simp add: BITSET_SPAN_LENGTH_def BITSET_POSITION_LENGTH_eq BITSET_WORD_LENGTH_eq)

lemma BITSET_LENGTH_MASK_eq: "BITSET_LENGTH_MASK = 0x03FFFFFF"
  by (simp add: BITSET_LENGTH_MASK_def BITSET_SPAN_LENGTH_eq)

lemma BITSET_POSITION_MASK_eq: "BITSET_POSITION_MASK = 0x7C000000"
  by (simp add: BITSET_POSITION_MASK_def BITSET_SPAN_LENGTH_eq BITSET_POSITION_LENGTH_eq)

lemma BITSET_FILL_BIT_eq: "BITSET_FILL_BIT = 0x80000000"
  by (simp add: BITSET_FILL_BIT_def BITSET_WORD_LENGTH_eq)

lemmas codec_consts = BITSET_WORD_LENGTH_eq BITSET_POSITION_LENGTH_eq BITSET_SPAN_LENGTH_eq
  BITSET_LENGTH_MASK_eq BITSET_POSITION_MASK_eq BITSET_FILL_BIT_eq

lemma BITSET_LENGTH_MASK_mask: "BITSET_LENGTH_MASK = mask 26"
  by (simp add: BITSET_LENGTH_MASK_eq mask_eq_exp_minus_1)

lemma BITSET_POSITION_MASK_mask: "BITSET_POSITION_MASK = push_bit 26 (mask 5)"
  by (simp add: BITSET_POSITION_MASK_eq mask_eq_exp_minus_1)

lemma BITSET_GET_LENGTH_take_bit: "BITSET_GET_LENGTH w = take_bit 26 w"
  by (simp only: BITSET_GET_LENGTH_def BITSET_LENGTH_MASK_mask take_bit_eq_mask)

lemma BITSET_GET_POSITION_take_bit: "BITSET_GET_POSITION w = take_bit 5 (drop_bit 26 w)"
  unfolding BITSET_GET_POSITION_def BITSET_POSITION_MASK_mask BITSET_SPAN_LENGTH_eq
  by (rule bit_word_eqI) (auto simp add: bit_simps)

text \<open>
  C1, as the header has it. \<^verbatim>\<open>BITSET_SPAN_LENGTH\<close> is \<open>32 - 5 - 1 = 26\<close>: the length
  field of a fill word is its low 26 bits, \<^verbatim>\<open>BITSET_GET_LENGTH\<close> masks with
  \<open>2 ^ 26 - 1\<close>, which is also \<^verbatim>\<open>BITSET_MAX_LENGTH\<close>, and \<^verbatim>\<open>BITSET_GET_POSITION\<close> extracts
  the five bits 26..30.
\<close>

theorem fill_fields_layout:
  "BITSET_GET_LENGTH w = w AND (2 ^ 26 - 1)
   \<and> BITSET_MAX_LENGTH = 2 ^ 26 - 1
   \<and> (bit (BITSET_GET_LENGTH w) n \<longleftrightarrow> n < 26 \<and> bit w n)
   \<and> BITSET_GET_POSITION w = take_bit 5 (drop_bit 26 w)
   \<and> (bit (BITSET_GET_POSITION w) n \<longleftrightarrow> n < 5 \<and> bit w (26 + n))"
proof -
  have "BITSET_GET_LENGTH w = w AND (2 ^ 26 - 1)"
    by (simp add: BITSET_GET_LENGTH_def BITSET_LENGTH_MASK_eq)
  moreover have "BITSET_MAX_LENGTH = 2 ^ 26 - 1"
    by (simp add: BITSET_MAX_LENGTH_def BITSET_LENGTH_MASK_eq)
  moreover have "bit (BITSET_GET_LENGTH w) n \<longleftrightarrow> n < 26 \<and> bit w n"
    by (simp add: BITSET_GET_LENGTH_take_bit bit_simps)
  moreover have "bit (BITSET_GET_POSITION w) n \<longleftrightarrow> n < 5 \<and> bit w (26 + n)"
    by (auto simp add: BITSET_GET_POSITION_take_bit bit_simps)
  ultimately show ?thesis
    using BITSET_GET_POSITION_take_bit by blast
qed

text \<open>
  C1 as stated fails at the fill word \<open>0x82000001\<close>: with a 25-bit length field it
  would have length 1 and position 1; the macros give length \<open>0x2000001\<close> and
  position 0, and the maximum length is not \<open>2 ^ 25 - 1\<close>.
\<close>

theorem fill_fields_not_25_bits:
  "BITSET_GET_LENGTH 0x82000001 \<noteq> 0x82000001 AND (2 ^ 25 - 1)
   \<and> BITSET_MAX_LENGTH \<noteq> 2 ^ 25 - 1
   \<and> BITSET_GET_POSITION 0x82000001 \<noteq> take_bit 5 (drop_bit 25 0x82000001)"
  by (simp add: BITSET_GET_LENGTH_def BITSET_GET_POSITION_def BITSET_MAX_LENGTH_def codec_consts)

section \<open>The population count\<close>

lemma bit_nat_less: "(a :: nat) < 2 ^ k \<Longrightarrow> bit a n \<Longrightarrow> n < k"
  by (metis bit_take_bit_iff take_bit_nat_eq_self)

lemma add_push_bit_or:
  fixes a r :: nat
  assumes "a < 2 ^ k"
  shows "a + 2 ^ k * r = a OR push_bit k r"
proof -
  have "a AND push_bit k r = 0"
    by (rule bit_eqI) (use assms in \<open>auto simp add: bit_simps dest: bit_nat_less\<close>)
  then have "a + push_bit k r = a OR push_bit k r"
    by (rule disjunctive_add_eq_or)
  then show ?thesis by (simp add: push_bit_eq_mult mult.commute)
qed

lemma and_nat_le: "(a :: nat) AND m \<le> a"
proof -
  have "int (a AND m) \<le> int a"
    by (simp add: of_nat_and_eq)
  then show ?thesis
    by (simp only: of_nat_le_iff)
qed

lemma and_split:
  fixes a m r M :: nat
  assumes "a < 2 ^ k" "m < 2 ^ k"
  shows "(a + 2 ^ k * r) AND (m + 2 ^ k * M) = (a AND m) + 2 ^ k * (r AND M)"
proof -
  have "a AND m \<le> a" by (rule and_nat_le)
  with assms have am: "a AND m < 2 ^ k" by simp
  have "(a OR push_bit k r) AND (m OR push_bit k M) = (a AND m) OR push_bit k (r AND M)"
    by (rule bit_eqI) (use assms in \<open>auto simp add: bit_simps dest: bit_nat_less\<close>)
  then show ?thesis
    by (simp only: add_push_bit_or [OF assms(1)] add_push_bit_or [OF assms(2)]
        add_push_bit_or [OF am])
qed

lemma and_shift:
  fixes r M :: nat
  shows "r AND (2 ^ k * M) = 2 ^ k * (drop_bit k r AND M)"
proof -
  have "r AND push_bit k M = push_bit k (drop_bit k r AND M)"
    by (rule bit_eqI) (auto simp add: bit_simps)
  then show ?thesis by (simp add: push_bit_eq_mult mult.commute)
qed

lemma pcn_0 [simp]: "pcn 0 = 0"
  by (simp add: pcn.simps)

lemma pcn_double: "b < 2 \<Longrightarrow> pcn (b + 2 * n) = b + pcn n"
  by (subst pcn.simps) auto

lemma pcn_split: "a < 2 ^ k \<Longrightarrow> pcn (a + 2 ^ k * b) = pcn a + pcn b"
proof (induction k arbitrary: a)
  case 0
  then show ?case by simp
next
  case (Suc k)
  then have half: "a div 2 < 2 ^ k" by simp
  have "a + 2 ^ Suc k * b = a mod 2 + 2 * (a div 2 + 2 ^ k * b)"
    by simp
  then have "pcn (a + 2 ^ Suc k * b) = pcn (a mod 2 + 2 * (a div 2 + 2 ^ k * b))"
    by (simp only:)
  also have "\<dots> = a mod 2 + pcn (a div 2 + 2 ^ k * b)"
    by (rule pcn_double) simp
  also have "\<dots> = a mod 2 + (pcn (a div 2) + pcn b)"
    by (simp only: Suc.IH [OF half])
  finally have "pcn (a + 2 ^ Suc k * b) = (a mod 2 + pcn (a div 2)) + pcn b"
    by simp
  moreover have "a mod 2 + pcn (a div 2) = pcn a"
    using pcn_double [of "a mod 2" "a div 2"] by simp
  ultimately show ?case by simp
qed

lemma pcn_le: "a < 2 ^ k \<Longrightarrow> pcn a \<le> k"
proof (induction k arbitrary: a)
  case 0
  then show ?case by simp
next
  case (Suc k)
  then have "pcn (a div 2) \<le> k" by simp
  moreover have "pcn a = a mod 2 + pcn (a div 2)"
    using pcn_double [of "a mod 2" "a div 2"] by simp
  ultimately show ?case by simp
qed

lemma pcn_pair: "a < 4 \<Longrightarrow> a - a div 2 = pcn a"
proof -
  assume "a < 4"
  then have "a div 2 < 2" by simp
  have "pcn a = a mod 2 + pcn (a div 2)"
    using pcn_double [of "a mod 2" "a div 2"] by simp
  also have "pcn (a div 2) = a div 2"
    using pcn_double [of "a div 2" 0] \<open>a div 2 < 2\<close> by simp
  finally show ?thesis by presburger
qed

text \<open>Step 1: pairs.\<close>

lemma step1:
  "x < 4 ^ n \<Longrightarrow>
     (x div 2) AND msk 4 1 n \<le> x div 2 \<and> x - ((x div 2) AND msk 4 1 n) = spread 4 n x"
proof (induction n arbitrary: x)
  case 0
  then show ?case by simp
next
  case (Suc n)
  define a r where "a = x mod 4" and "r = x div 4"
  have x: "x = a + 4 * r" and a: "a < 4"
    by (simp_all add: a_def r_def)
  from Suc.prems have r: "r < 4 ^ n"
    by (simp add: r_def less_mult_imp_div_less)
  note IH = Suc.IH [OF r]
  have "(a div 2 + 2 ^ 1 * r) AND (1 + 2 ^ 1 * (2 * msk 4 1 n))
      = ((a div 2) AND 1) + 2 ^ 1 * (r AND (2 * msk 4 1 n))"
    using a by (intro and_split) simp_all
  moreover have "r AND (2 ^ 1 * msk 4 1 n) = 2 ^ 1 * (drop_bit 1 r AND msk 4 1 n)"
    by (rule and_shift)
  moreover have "(a div 2) AND 1 = a div 2"
    using a by (simp add: and_one_eq) 
  moreover have "x div 2 = a div 2 + 2 * r"
    by (simp add: x)
  ultimately have m: "(x div 2) AND msk 4 1 (Suc n) = a div 2 + 4 * ((r div 2) AND msk 4 1 n)"
    by (simp add: drop_bit_eq_div)
  define t where "t = (r div 2) AND msk 4 1 n"
  have sp: "spread 4 (Suc n) x = pcn a + 4 * spread 4 n r"
    by (simp add: a_def r_def)
  from IH have t: "t \<le> r div 2" "r - t = spread 4 n r"
    by (simp_all add: t_def)
  have "a div 2 + 4 * t \<le> (a + 4 * r) div 2
      \<and> a + 4 * r - (a div 2 + 4 * t) = (a - a div 2) + 4 * (r - t)"
    using t(1) by linarith
  then have "a div 2 + 4 * t \<le> x div 2 \<and> x - (a div 2 + 4 * t) = (a - a div 2) + 4 * (r - t)"
    by (simp only: x [symmetric])
  then show ?case
    unfolding m sp t_def [symmetric] t(2) pcn_pair [OF a] .
qed

lemma and_low_mask:
  fixes u v :: nat
  assumes "u < 2 ^ k"
  shows "(u + 2 ^ k * v) AND (2 ^ k - 1) = u"
proof -
  have "(u + 2 ^ k * v) AND ((2 ^ k - 1) + 2 ^ k * 0) = (u AND (2 ^ k - 1)) + 2 ^ k * (v AND 0)"
    using assms by (intro and_split) simp_all
  moreover have "u AND mask k = u"
    using assms by (simp add: take_bit_nat_eq_self flip: take_bit_eq_mask)
  then have "u AND (2 ^ k - 1) = u"
    by (simp only: mask_eq_exp_minus_1)
  ultimately show ?thesis by simp
qed

text \<open>Step 2: nibbles.\<close>

lemma step2:
  "(spread 4 (2 * n) x AND msk 16 3 n) + ((spread 4 (2 * n) x div 4) AND msk 16 3 n)
     = spread 16 n x"
proof (induction n arbitrary: x)
  case 0
  then show ?case by simp
next
  case (Suc n)
  define a0 a1 r where "a0 = x mod 4" and "a1 = x div 4 mod 4" and "r = x div 16"
  define yr M where "yr = spread 4 (2 * n) r" and "M = msk 16 3 n"
  define p0 p1 where "p0 = pcn a0" and "p1 = pcn a1"
  have "a0 < 2 ^ 2" "a1 < 2 ^ 2"
    by (simp_all add: a0_def a1_def)
  then have "p0 \<le> 2" "p1 \<le> 2"
    unfolding p0_def p1_def by (simp_all only: pcn_le)
  then have p: "p0 < 2 ^ 2" "p1 < 2 ^ 2" "p0 + 2 ^ 2 * p1 < 2 ^ 4"
    by simp_all
  have "x div 4 div 4 = x div 16"
    by (simp add: div_mult2_eq [symmetric])
  then have y: "spread 4 (2 * Suc n) x = (p0 + 2 ^ 2 * p1) + 2 ^ 4 * yr"
    by (simp add: a0_def a1_def r_def yr_def p0_def p1_def)
  have "x mod (4 * 4) = 4 * (x div 4 mod 4) + x mod 4"
    by (rule mod_mult2_eq)
  then have "x mod 16 = a0 + 2 ^ 2 * a1"
    by (simp add: a0_def a1_def)
  then have "pcn (x mod 16) = p0 + p1"
    unfolding p0_def p1_def using \<open>a0 < 2 ^ 2\<close> by (simp only: pcn_split)
  then have goal: "spread 16 (Suc n) x = (p0 + p1) + 16 * spread 16 n r"
    by (simp add: r_def)
  have mk: "msk 16 3 (Suc n) = 3 + 2 ^ 4 * M"
    by (simp add: M_def)
  have "((p0 + 2 ^ 2 * p1) + 2 ^ 4 * yr) AND (3 + 2 ^ 4 * M)
      = ((p0 + 2 ^ 2 * p1) AND 3) + 2 ^ 4 * (yr AND M)"
    using p(3) by (intro and_split) simp_all
  moreover have "(p0 + 2 ^ 2 * p1) AND 3 = p0"
    using and_low_mask [OF p(1), of p1] by simp
  ultimately have A: "((p0 + 2 ^ 2 * p1) + 2 ^ 4 * yr) AND (3 + 2 ^ 4 * M) = p0 + 16 * (yr AND M)"
    by simp
  have "((p0 + 2 ^ 2 * p1) + 2 ^ 4 * yr) div 4 = p1 + 2 ^ 2 * yr"
    using \<open>p0 \<le> 2\<close> by simp
  moreover have "(p1 + 2 ^ 2 * yr) AND (3 + 2 ^ 2 * (2 ^ 2 * M)) = (p1 AND 3) + 2 ^ 2 * (yr AND (2 ^ 2 * M))"
    using p(2) by (intro and_split) simp_all
  moreover have "yr AND (2 ^ 2 * M) = 2 ^ 2 * (drop_bit 2 yr AND M)"
    by (rule and_shift)
  moreover have "p1 AND 3 = p1"
    using and_low_mask [OF p(2), of 0] by simp
  ultimately have B: "(((p0 + 2 ^ 2 * p1) + 2 ^ 4 * yr) div 4) AND (3 + 2 ^ 4 * M)
      = p1 + 16 * ((yr div 4) AND M)"
    by (simp add: drop_bit_eq_div)
  from Suc.IH [of r] have "(yr AND M) + ((yr div 4) AND M) = spread 16 n r"
    by (simp add: yr_def M_def)
  then show ?case
    unfolding y mk A B goal by simp
qed

lemma spread_16_low: "spread 16 m r mod 16 \<le> 4"
proof (cases m)
  case 0
  then show ?thesis by simp
next
  case (Suc m')
  have "r mod 16 < 2 ^ 4" by simp
  then have "pcn (r mod 16) \<le> 4" by (rule pcn_le)
  then show ?thesis by (simp add: Suc)
qed

text \<open>Step 3: bytes.\<close>

lemma step3:
  "(spread 16 (2 * n) x + spread 16 (2 * n) x div 16) AND msk 256 15 n = spread 256 n x"
proof (induction n arbitrary: x)
  case 0
  then show ?case by simp
next
  case (Suc n)
  define a0 a1 r where "a0 = x mod 16" and "a1 = x div 16 mod 16" and "r = x div 256"
  define zr M where "zr = spread 16 (2 * n) r" and "M = msk 256 15 n"
  define p0 p1 where "p0 = pcn a0" and "p1 = pcn a1"
  define q where "q = zr mod 16"
  have "a0 < 2 ^ 4" "a1 < 2 ^ 4"
    by (simp_all add: a0_def a1_def)
  then have p: "p0 \<le> 4" "p1 \<le> 4"
    unfolding p0_def p1_def by (simp_all only: pcn_le)
  have q: "q \<le> 4"
    unfolding q_def zr_def by (rule spread_16_low)
  have "x div 16 div 16 = x div 256"
    by (simp add: div_mult2_eq [symmetric])
  then have z: "spread 16 (2 * Suc n) x = (p0 + 16 * p1) + 256 * zr"
    by (simp add: a0_def a1_def r_def zr_def p0_def p1_def)
  have "x mod (16 * 16) = 16 * (x div 16 mod 16) + x mod 16"
    by (rule mod_mult2_eq)
  then have "x mod 256 = a0 + 2 ^ 4 * a1"
    by (simp add: a0_def a1_def)
  then have "pcn (x mod 256) = p0 + p1"
    unfolding p0_def p1_def using \<open>a0 < 2 ^ 4\<close> by (simp only: pcn_split)
  then have goal: "spread 256 (Suc n) x = (p0 + p1) + 256 * spread 256 n r"
    by (simp add: r_def)
  have mk: "msk 256 15 (Suc n) = 15 + 2 ^ 8 * M"
    by (simp add: M_def)
  have zr: "zr = q + 16 * (zr div 16)"
    by (simp add: q_def)
  have "((p0 + 16 * p1) + 256 * zr) div 16 = p1 + 16 * zr"
    using p(1) by simp
  then have sum: "((p0 + 16 * p1) + 256 * zr) + ((p0 + 16 * p1) + 256 * zr) div 16
      = ((p0 + p1) + 2 ^ 4 * (p1 + q)) + 2 ^ 8 * (zr + zr div 16)"
    using zr by simp
  have "(p0 + p1) + 2 ^ 4 * (p1 + q) < 2 ^ 8"
    using p q by simp
  then have "(((p0 + p1) + 2 ^ 4 * (p1 + q)) + 2 ^ 8 * (zr + zr div 16)) AND (15 + 2 ^ 8 * M)
      = (((p0 + p1) + 2 ^ 4 * (p1 + q)) AND 15) + 2 ^ 8 * ((zr + zr div 16) AND M)"
    by (intro and_split) simp_all
  moreover have "((p0 + p1) + 2 ^ 4 * (p1 + q)) AND 15 = p0 + p1"
    using and_low_mask [of "p0 + p1" 4 "p1 + q"] p by simp
  moreover from Suc.IH [of r] have "(zr + zr div 16) AND M = spread 256 n r"
    by (simp add: zr_def M_def)
  ultimately show ?case
    unfolding z mk sum goal by simp
qed

text \<open>Step 4: the multiplication adds the four bytes up in the top byte.\<close>

lemma step4:
  assumes "c0 \<le> 8" "c1 \<le> 8" "c2 \<le> 8" "c3 \<le> (8 :: nat)"
  shows "((c0 + 256 * (c1 + 256 * (c2 + 256 * c3))) * 0x01010101) mod 2 ^ 32 div 2 ^ 24
      = c0 + c1 + c2 + c3"
proof -
  define L where "L = c0 + 256 * (c0 + c1) + 65536 * (c0 + c1 + c2)"
  define S where "S = c0 + c1 + c2 + c3"
  define H where "H = (c1 + c2 + c3) + 256 * (c2 + c3) + 65536 * c3"
  have L: "L < 2 ^ 24" and S: "L + 2 ^ 24 * S < 2 ^ 32"
    using assms by (simp_all add: L_def S_def)
  have "(c0 + 256 * (c1 + 256 * (c2 + 256 * c3))) * 0x01010101 = (L + 2 ^ 24 * S) + 2 ^ 32 * H"
    by (simp add: L_def S_def H_def algebra_simps)
  then have "((c0 + 256 * (c1 + 256 * (c2 + 256 * c3))) * 0x01010101) mod 2 ^ 32 = L + 2 ^ 24 * S"
    using S by simp
  moreover have "(L + 2 ^ 24 * S) div 2 ^ 24 = S"
    using L by simp
  ultimately show ?thesis
    by (simp add: S_def)
qed

lemma pcn_take_bit: "pcn (take_bit k x) = length (filter (bit x) [0..<k])"
proof (induction k)
  case 0
  then show ?case by simp
next
  case (Suc k)
  have "take_bit (Suc k) x = take_bit k x + 2 ^ k * of_bool (bit x k)"
    by (simp add: take_bit_Suc_from_most push_bit_eq_mult)
  then have "pcn (take_bit (Suc k) x) = pcn (take_bit k x) + pcn (of_bool (bit x k))"
    by (simp only: pcn_split take_bit_nat_less_exp)
  moreover have "pcn (of_bool (bit x k)) = of_bool (bit x k)"
    using pcn_double [of "of_bool (bit x k)" 0] by simp
  ultimately show ?case
    using Suc.IH by simp
qed

lemma and_nat_le2: "(a :: nat) AND m \<le> m"
  by (metis and.commute and_nat_le)

lemma msk_numeral: "msk B c (numeral k) = c + B * msk B c (pred_numeral k)"
  by (simp add: numeral_eq_Suc)

lemma spread_numeral:
  "spread B (numeral k) x = pcn (x mod B) + B * spread B (pred_numeral k) (x div B)"
  by (simp add: numeral_eq_Suc)

lemma msk_consts:
  "msk 4 1 16 = 0x55555555" "msk 16 3 8 = 0x33333333" "msk 256 15 4 = 0x0F0F0F0F"
  by (simp_all add: msk_numeral)

lemma pcn_bytes:
  assumes "x < 2 ^ 32"
  shows "\<exists>c0 c1 c2 c3. c0 \<le> 8 \<and> c1 \<le> 8 \<and> c2 \<le> 8 \<and> c3 \<le> 8
     \<and> spread 256 4 x = c0 + 256 * (c1 + 256 * (c2 + 256 * c3))
     \<and> pcn x = c0 + c1 + c2 + c3"
proof -
  define b0 b1 b2 b3 where "b0 = x mod 256" and "b1 = x div 256 mod 256"
    and "b2 = x div 256 div 256 mod 256" and "b3 = x div 256 div 256 div 256"
  have b: "b0 < 2 ^ 8" "b1 < 2 ^ 8" "b2 < 2 ^ 8"
    by (simp_all add: b0_def b1_def b2_def)
  have b3: "b3 < 2 ^ 8"
    using assms by (simp add: b3_def div_mult2_eq [symmetric] less_mult_imp_div_less)
  have x: "x = b0 + 2 ^ 8 * (b1 + 2 ^ 8 * (b2 + 2 ^ 8 * b3))"
    by (simp add: b0_def b1_def b2_def b3_def)
  have "pcn x = pcn b0 + (pcn b1 + (pcn b2 + pcn b3))"
    by (subst x) (simp only: pcn_split b)
  moreover have "spread 256 4 x = pcn b0 + 256 * (pcn b1 + 256 * (pcn b2 + 256 * pcn (b3 mod 256)))"
    unfolding b0_def b1_def b2_def b3_def
    by (simp add: spread_numeral)
  moreover have "b3 mod 256 = b3"
    using b3 by simp
  moreover have "pcn b0 \<le> 8" "pcn b1 \<le> 8" "pcn b2 \<le> 8" "pcn b3 \<le> 8"
    using b b3 by (simp_all only: pcn_le)
  ultimately show ?thesis
    by (intro exI [of _ "pcn b0"] exI [of _ "pcn b1"] exI [of _ "pcn b2"] exI [of _ "pcn b3"]) simp
qed

lemma pop_count_nat:
  assumes "x < 2 ^ 32"
  defines "x2 \<equiv> x - ((x div 2) AND 0x55555555)"
  defines "x3 \<equiv> (x2 AND 0x33333333) + ((x2 div 4) AND 0x33333333)"
  defines "x4 \<equiv> (x3 + x3 div 16) AND 0x0F0F0F0F"
  shows "(x4 * 0x01010101) mod 2 ^ 32 div 2 ^ 24 = pcn x"
proof -
  have "x < 4 ^ 16" using assms(1) by simp
  from step1 [OF this, unfolded msk_consts] have "x2 = spread 4 16 x"
    by (simp add: x2_def)
  with step2 [of 8 x, unfolded msk_consts] have "x3 = spread 16 8 x"
    by (simp add: x3_def)
  with step3 [of 4 x, unfolded msk_consts] have "x4 = spread 256 4 x"
    by (simp add: x4_def)
  moreover from pcn_bytes [OF assms(1)] obtain c0 c1 c2 c3 where
    "c0 \<le> 8" "c1 \<le> 8" "c2 \<le> 8" "c3 \<le> 8"
    "spread 256 4 x = c0 + 256 * (c1 + 256 * (c2 + 256 * c3))"
    "pcn x = c0 + c1 + c2 + c3"
    by blast
  ultimately show ?thesis
    using step4 [of c0 c1 c2 c3] by simp
qed

lemma unat_and_numeral:
  "unat ((v :: 32 word) AND numeral k) = unat v AND unat (numeral k :: 32 word)"
  by (rule unsigned_and_eq)

lemma BITSET_POP_COUNT_pcn:
  "BITSET_POP_COUNT c w = c + of_nat (pcn (take_bit 31 (unat w)))"
proof -
  define x where "x = take_bit 31 (unat w)"
  define x2 where "x2 = x - ((x div 2) AND 0x55555555)"
  define x3 where "x3 = (x2 AND 0x33333333) + ((x2 div 4) AND 0x33333333)"
  define x4 where "x4 = (x3 + x3 div 16) AND 0x0F0F0F0F"
  define w1 where "w1 = w AND P1"
  define w2 where "w2 = w1 - (drop_bit 1 w1 AND P2)"
  define w3 where "w3 = (w2 AND P3) + (drop_bit 2 w2 AND P3)"
  define w4 where "w4 = (w3 + drop_bit 4 w3) AND P4"
  have "x < 2 ^ 31"
    unfolding x_def by (rule take_bit_nat_less_exp)
  then have x: "x < 2 ^ 32"
    by simp
  have "unat w1 = unat w AND mask 31"
    by (simp add: w1_def P1_def unsigned_and_eq mask_eq_exp_minus_1)
  then have u1: "unat w1 = x"
    by (simp add: x_def take_bit_eq_mask)
  have s1: "unat (drop_bit 1 w1 AND P2) = (x div 2) AND 0x55555555"
    by (simp add: P2_def unsigned_and_eq unat_drop_bit_eq drop_bit_eq_div unat_div u1)
  also have "\<dots> \<le> x div 2"
    by (rule and_nat_le)
  finally have "unat (drop_bit 1 w1 AND P2) \<le> unat w1"
    by (simp add: u1)
  then have "drop_bit 1 w1 AND P2 \<le> w1"
    by (simp only: word_le_nat_alt)
  then have u2: "unat w2 = x2"
    unfolding w2_def x2_def by (simp only: unat_sub u1 s1)
  have a3: "unat (w2 AND P3) = x2 AND 0x33333333"
    and b3: "unat (drop_bit 2 w2 AND P3) = (x2 div 4) AND 0x33333333"
    by (simp_all add: P3_def unsigned_and_eq unat_drop_bit_eq drop_bit_eq_div unat_div u2)
  have "x2 AND 0x33333333 \<le> 0x33333333" "(x2 div 4) AND 0x33333333 \<le> 0x33333333"
    by (rule and_nat_le2)+
  then have x3: "x3 \<le> 0x66666666"
    by (simp add: x3_def)
  then have "unat (w2 AND P3) + unat (drop_bit 2 w2 AND P3) < 2 ^ 32"
    by (simp add: a3 b3 x3_def)
  then have "unat ((w2 AND P3) + (drop_bit 2 w2 AND P3)) = unat (w2 AND P3) + unat (drop_bit 2 w2 AND P3)"
    by (simp add: unat_add_lem [where ?'a = 32, simplified])
  then have u3: "unat w3 = x3"
    by (simp add: w3_def x3_def a3 b3)
  have "unat (drop_bit 4 w3) = x3 div 16"
    by (simp add: unat_drop_bit_eq drop_bit_eq_div unat_div u3)
  moreover have "x3 + x3 div 16 < 2 ^ 32"
    using x3 by simp
  ultimately have "unat (w3 + drop_bit 4 w3) = x3 + x3 div 16"
    using u3 by (simp add: unat_add_lem [where ?'a = 32, simplified, THEN iffD1])
  then have u4: "unat w4 = x4"
    by (simp add: w4_def x4_def P4_def unsigned_and_eq)
  have "unat (w4 * P5) = (x4 * 0x01010101) mod 2 ^ 32"
    by (simp add: unat_word_ariths u4 P5_def)
  then have "unat (drop_bit 24 (w4 * P5)) = (x4 * 0x01010101) mod 2 ^ 32 div 2 ^ 24"
    by (simp add: unat_drop_bit_eq drop_bit_eq_div unat_div)
  also have "\<dots> = pcn x"
    unfolding x4_def x3_def x2_def by (rule pop_count_nat [OF x])
  finally have "of_nat (unat (drop_bit 24 (w4 * P5))) = (of_nat (pcn x) :: 32 word)"
    by simp
  then have "drop_bit 24 (w4 * P5) = of_nat (pcn x)"
    by simp
  then show ?thesis
    by (simp add: BITSET_POP_COUNT_def Let_def BITSET_WORD_LENGTH_eq w4_def w3_def w2_def w1_def x_def)
qed

lemma payload_bits_card:
  "pcn (take_bit 31 (unat (w :: 32 word))) = card {n. n < 31 \<and> bit w n}"
proof -
  have "{n. n < 31 \<and> bit w n} = set (filter (bit (unat w)) [0..<31])"
    by (auto simp add: bit_unsigned_iff)
  then have "card {n. n < 31 \<and> bit w n} = length (filter (bit (unat w)) [0..<31])"
    by (simp only: distinct_card distinct_filter distinct_upt)
  then show ?thesis
    by (simp only: pcn_take_bit)
qed

lemma payload_bits_le: "card {n. n < 31 \<and> bit (w :: 32 word) n} \<le> 31"
proof -
  have "card {n. n < 31 \<and> bit w n} \<le> card {..<31::nat}"
    by (rule card_mono) auto
  then show ?thesis by simp
qed

lemma bit_push_bit_1: "bit (push_bit k (1 :: 32 word)) m \<longleftrightarrow> m = k \<and> k < 32"
  by (auto simp add: bit_simps)

lemma bit_drop_push_bit_1:
  "bit (drop_bit p (push_bit k (1 :: 32 word))) n \<longleftrightarrow> p + n = k \<and> k < 32"
  by (simp only: bit_drop_bit_eq bit_push_bit_1 o_def)

lemma bit_BITSET_CREATE_LITERAL:
  assumes "p \<le> 30"
  shows "bit (BITSET_CREATE_LITERAL p) n \<longleftrightarrow> n = 30 - p"
proof -
  have "bit (BITSET_CREATE_LITERAL p) n \<longleftrightarrow> p + n = BITSET_WORD_LENGTH - 2 \<and> BITSET_WORD_LENGTH - 2 < 32"
    unfolding BITSET_CREATE_LITERAL_def by (rule bit_drop_push_bit_1)
  with assms show ?thesis
    by (auto simp add: BITSET_WORD_LENGTH_eq)
qed

lemma bit_BITSET_FILL_BIT: "bit BITSET_FILL_BIT n \<longleftrightarrow> n = 31"
proof -
  have "bit BITSET_FILL_BIT n \<longleftrightarrow> n = BITSET_WORD_LENGTH - 1 \<and> BITSET_WORD_LENGTH - 1 < 32"
    unfolding BITSET_FILL_BIT_def by (rule bit_push_bit_1)
  then show ?thesis
    by (simp add: BITSET_WORD_LENGTH_eq)
qed

text \<open>
  C8: for \<open>p \<le> 30\<close>, \<^verbatim>\<open>BITSET_CREATE_LITERAL(p)\<close> is a literal word whose only one
  bit is machine bit \<open>30 - p\<close>, that is payload position \<open>p\<close> counted from the
  most significant bit below the sign bit; \<^verbatim>\<open>BITSET_POP_COUNT\<close> adds to \<open>c\<close> the number
  of one bits among bits 0..30 of \<open>w\<close>, whatever bit 31 is; so the count of such a
  literal is 1.
\<close>

theorem literal_for_bit_and_pop_count:
  "(p \<le> 30 \<longrightarrow>
      BITSET_IS_LITERAL_WORD (BITSET_CREATE_LITERAL p)
      \<and> (\<forall>n. bit (BITSET_CREATE_LITERAL p) n \<longleftrightarrow> n = 30 - p)
      \<and> BITSET_POP_COUNT 0 (BITSET_CREATE_LITERAL p) = 1)
   \<and> BITSET_POP_COUNT c w = c + of_nat (card {n. n < 31 \<and> bit w n})
   \<and> unat (BITSET_POP_COUNT 0 w) = card {n. n < 31 \<and> bit w n}"
proof -
  have count: "BITSET_POP_COUNT c w = c + of_nat (card {n. n < 31 \<and> bit w n})" for c w
    by (simp only: BITSET_POP_COUNT_pcn payload_bits_card)
  have "unat (BITSET_POP_COUNT 0 w) = card {n. n < 31 \<and> bit w n}"
    using payload_bits_le [of w] by (simp add: count unat_of_nat)
  moreover have "BITSET_IS_LITERAL_WORD (BITSET_CREATE_LITERAL p)
      \<and> (\<forall>n. bit (BITSET_CREATE_LITERAL p) n \<longleftrightarrow> n = 30 - p)
      \<and> BITSET_POP_COUNT 0 (BITSET_CREATE_LITERAL p) = 1" if p: "p \<le> 30"
  proof -
    note b = bit_BITSET_CREATE_LITERAL [OF p]
    have "BITSET_CREATE_LITERAL p AND BITSET_FILL_BIT = 0"
      by (rule bit_word_eqI) (auto simp add: b bit_BITSET_FILL_BIT bit_and_iff)
    moreover have "{n. n < 31 \<and> bit (BITSET_CREATE_LITERAL p) n} = {30 - p}"
      by (auto simp add: b)
    then have "BITSET_POP_COUNT 0 (BITSET_CREATE_LITERAL p) = 1"
      by (simp add: count)
    ultimately show ?thesis
      by (simp add: BITSET_IS_LITERAL_WORD_def b)
  qed
  ultimately show ?thesis
    using count by blast
qed

theorem literal_for_bit_and_pop_count_witness:
  "BITSET_CREATE_LITERAL 1 = 0x20000000
   \<and> BITSET_IS_LITERAL_WORD (BITSET_CREATE_LITERAL 1)
   \<and> (\<forall>n. bit (BITSET_CREATE_LITERAL 1) n \<longleftrightarrow> n = 29)
   \<and> BITSET_POP_COUNT 0 (BITSET_CREATE_LITERAL 1) = 1"
proof -
  have "(1 :: nat) \<le> 30" by simp
  with literal_for_bit_and_pop_count [of 1 0 0]
  have "BITSET_IS_LITERAL_WORD (BITSET_CREATE_LITERAL 1)
      \<and> (\<forall>n. bit (BITSET_CREATE_LITERAL 1) n \<longleftrightarrow> n = 30 - 1)
      \<and> BITSET_POP_COUNT 0 (BITSET_CREATE_LITERAL 1) = 1"
    by blast
  moreover have "BITSET_CREATE_LITERAL 1 = 0x20000000"
    by (simp add: BITSET_CREATE_LITERAL_def BITSET_WORD_LENGTH_eq)
  ultimately show ?thesis
    by simp
qed

section \<open>Properties of the bitset engine\<close>

lemma fill_1_1_fields:
  "BITSET_IS_FILL_WORD (BITSET_CREATE_FILL 1 1)"
  "fill_length (BITSET_CREATE_FILL 1 1) = 1" "fill_position (BITSET_CREATE_FILL 1 1) = 2"
  by (simp_all add: BITSET_IS_FILL_WORD_def fill_length_def fill_position_def BITSET_CREATE_FILL_def
      BITSET_SET_POSITION_def BITSET_GET_LENGTH_def BITSET_GET_POSITION_def codec_consts)

lemma empty_fill_fields:
  "BITSET_IS_FILL_WORD (BITSET_CREATE_EMPTY_FILL 2)"
  "fill_length (BITSET_CREATE_EMPTY_FILL 2) = 2" "fill_position (BITSET_CREATE_EMPTY_FILL 2) = 0"
  "BITSET_IS_FILL_WORD (BITSET_CREATE_EMPTY_FILL 1)"
  "fill_length (BITSET_CREATE_EMPTY_FILL 1) = 1" "fill_position (BITSET_CREATE_EMPTY_FILL 1) = 0"
  by (simp_all add: BITSET_IS_FILL_WORD_def fill_length_def fill_position_def BITSET_CREATE_EMPTY_FILL_def
      BITSET_GET_LENGTH_def BITSET_GET_POSITION_def codec_consts)

lemma literal_consts:
  "BITSET_CREATE_LITERAL 0 = 0x40000000" "BITSET_CREATE_LITERAL 1 = 0x20000000"
  "BITSET_CREATE_LITERAL (Suc 0) = 0x20000000"
  by (simp_all add: BITSET_CREATE_LITERAL_def BITSET_WORD_LENGTH_eq)

lemma literal_bit_CREATE_LITERAL:
  assumes "p \<le> 30" "q \<le> 30"
  shows "literal_bit (BITSET_CREATE_LITERAL p) q \<longleftrightarrow> p = q"
proof -
  have "BITSET_CREATE_LITERAL p AND BITSET_CREATE_LITERAL q = 0 \<longleftrightarrow> p \<noteq> q"
  proof
    assume z: "BITSET_CREATE_LITERAL p AND BITSET_CREATE_LITERAL q = 0"
    show "p \<noteq> q"
    proof
      assume "p = q"
      with z have "BITSET_CREATE_LITERAL p = 0" by simp
      then have "\<not> bit (BITSET_CREATE_LITERAL p) (30 - p)" by simp
      with assms show False by (simp add: bit_BITSET_CREATE_LITERAL)
    qed
  next
    assume "p \<noteq> q"
    with assms show "BITSET_CREATE_LITERAL p AND BITSET_CREATE_LITERAL q = 0"
      by (intro bit_word_eqI) (auto simp add: bit_and_iff bit_BITSET_CREATE_LITERAL)
  qed
  then show ?thesis
    by (auto simp add: literal_bit_def)
qed

lemma same_bits:
  "bitset_get \<lparr>b_words = [BITSET_CREATE_FILL 1 1]\<rparr> k
     \<longleftrightarrow> bitset_get \<lparr>b_words = [BITSET_CREATE_EMPTY_FILL 1, 0x20000000]\<rparr> k"
proof -
  have lit: "\<not> BITSET_IS_FILL_WORD 0x20000000"
    by (simp add: BITSET_IS_FILL_WORD_def BITSET_FILL_BIT_eq)
  have "k mod 31 \<le> 30" by simp
  then have "literal_bit (BITSET_CREATE_LITERAL 1) (k mod 31) \<longleftrightarrow> 1 = k mod 31"
    by (intro literal_bit_CREATE_LITERAL) simp_all
  then have "literal_bit 0x20000000 (k mod 31) \<longleftrightarrow> k mod 31 = 1"
    by (auto simp only: literal_consts(2))
  then show ?thesis
    by (auto simp add: bitset_get_def BITSET_LITERAL_LENGTH_def BITSET_WORD_LENGTH_eq fill_1_1_fields
        empty_fill_fields lit)
qed

text \<open>
  C6, for \<open>set\<close> as the specification describes it: on the stream \<open>[fill L=2 P=0]\<close>,
  \<open>set(b, 32, true)\<close> returns false and leaves the single word \<open>[fill L=1 P=2]\<close>: one
  clean block, then the absorbed bit at index 1 of block 1. This stream has the same bits
  as \<open>[fill L=1 P=0][literal 0x20000000]\<close>, \<open>0x20000000\<close> being the literal with only
  bit index 1 set, and \<open>get(b, 32)\<close> is true afterwards.
\<close>

theorem fill_partition:
  "bitset_set_to \<lparr>b_words = [BITSET_CREATE_EMPTY_FILL 2]\<rparr> 32 True
     = (False, \<lparr>b_words = [BITSET_CREATE_FILL 1 1]\<rparr>)
   \<and> fill_length (BITSET_CREATE_FILL 1 1) = 1
   \<and> fill_position (BITSET_CREATE_FILL 1 1) = 2
   \<and> BITSET_CREATE_LITERAL 1 = 0x20000000
   \<and> bitset_get \<lparr>b_words = [BITSET_CREATE_FILL 1 1]\<rparr> 32
   \<and> (\<forall>k. bitset_get \<lparr>b_words = [BITSET_CREATE_FILL 1 1]\<rparr> k
          \<longleftrightarrow> bitset_get \<lparr>b_words = [BITSET_CREATE_EMPTY_FILL 1, 0x20000000]\<rparr> k)"
proof -
  have "make_fill 1 1 = BITSET_CREATE_FILL 1 1"
    by (simp add: make_fill_def)
  then have "bitset_set_to \<lparr>b_words = [BITSET_CREATE_EMPTY_FILL 2]\<rparr> 32 True
     = (False, \<lparr>b_words = [BITSET_CREATE_FILL 1 1]\<rparr>)"
    by (simp add: bitset_set_to_def BITSET_LITERAL_LENGTH_def BITSET_WORD_LENGTH_eq empty_fill_fields)
  moreover have "bitset_get \<lparr>b_words = [BITSET_CREATE_FILL 1 1]\<rparr> 32"
    by (simp add: bitset_get_def BITSET_LITERAL_LENGTH_def BITSET_WORD_LENGTH_eq fill_1_1_fields)
  ultimately show ?thesis
    using same_bits by (simp add: fill_1_1_fields literal_consts)
qed

text \<open>
  C6 as stated fails: the stream after the call is not
  \<open>[fill L=1 P=0][literal 0x40000000]\<close>; \<open>0x40000000\<close> is the literal of bit index 0,
  not 1; and on that stream \<open>get(b, 32)\<close> would be false.
\<close>

theorem fill_partition_not_as_stated:
  "b_words (snd (bitset_set_to \<lparr>b_words = [BITSET_CREATE_EMPTY_FILL 2]\<rparr> 32 True))
     \<noteq> [BITSET_CREATE_EMPTY_FILL 1, 0x40000000]
   \<and> BITSET_CREATE_LITERAL 1 \<noteq> 0x40000000
   \<and> BITSET_CREATE_LITERAL 0 = 0x40000000
   \<and> \<not> bitset_get \<lparr>b_words = [BITSET_CREATE_EMPTY_FILL 1, 0x40000000]\<rparr> 32"
proof -
  have "make_fill 1 1 = BITSET_CREATE_FILL 1 1"
    by (simp add: make_fill_def)
  then have "bitset_set_to \<lparr>b_words = [BITSET_CREATE_EMPTY_FILL 2]\<rparr> 32 True
     = (False, \<lparr>b_words = [BITSET_CREATE_FILL 1 1]\<rparr>)"
    by (simp add: bitset_set_to_def BITSET_LITERAL_LENGTH_def BITSET_WORD_LENGTH_eq empty_fill_fields)
  moreover have "\<not> bitset_get \<lparr>b_words = [BITSET_CREATE_EMPTY_FILL 1, 0x40000000]\<rparr> 32"
    by (simp add: bitset_get_def BITSET_LITERAL_LENGTH_def BITSET_WORD_LENGTH_eq empty_fill_fields
        BITSET_IS_FILL_WORD_def literal_bit_def literal_consts BITSET_FILL_BIT_eq)
  ultimately show ?thesis
    by (simp add: literal_consts)
qed

section \<open>Properties of the length-prefixed integers\<close>

lemma uchar_eq: "uchar x = take_bit 8 x"
  unfolding uchar_def by (rule bit_word_eqI) (auto simp add: bit_simps)

lemma drop_bit_uchar [simp]:
  "drop_bit 8 (uchar x) = 0" "drop_bit 16 (uchar x) = 0" "drop_bit 24 (uchar x) = 0"
  unfolding uchar_eq by (rule bit_word_eqI; simp add: bit_simps)+

lemma uchar_and_FF [simp]: "uchar x AND 0xFF = uchar x"
proof -
  have "uchar x AND mask 8 = uchar x"
    unfolding uchar_eq by (rule bit_word_eqI) (auto simp add: bit_simps)
  then show ?thesis by (simp add: mask_eq_exp_minus_1)
qed

lemma bit_less_2p: "(w :: 32 word) < 2 ^ k \<Longrightarrow> bit w n \<Longrightarrow> n < k"
  by (metis less_mask_eq take_bit_eq_mask bit_take_bit_iff)

lemma take_bit_small: "(w :: 32 word) < 2 ^ k \<Longrightarrow> take_bit k w = w"
  by (simp add: less_mask_eq take_bit_eq_mask)

lemma encoded_type_bit: "bit (encoded_type b) n \<longleftrightarrow> (n = 6 \<or> n = 7) \<and> bit b n"
proof -
  have "(0xC0 :: 32 word) = push_bit 6 (mask 2)"
    by (simp add: mask_eq_exp_minus_1)
  then have "encoded_type b = scast b AND push_bit 6 (mask 2)"
    by (simp add: encoded_type_def)
  then have "bit (encoded_type b) n \<longleftrightarrow> 6 \<le> n \<and> n < 8 \<and> bit b (min 7 n)"
    by (auto simp add: bit_simps)
  moreover have "6 \<le> n \<and> n < 8 \<longleftrightarrow> n = 6 \<or> n = 7"
    by arith
  ultimately show ?thesis
    by auto
qed

lemma encoded_type_small: "len < 64 \<Longrightarrow> encoded_type (ucast (uchar len)) = 0"
proof -
  assume "len < 64"
  then have "len < 2 ^ 6" by simp
  then have *: "\<And>n. bit len n \<Longrightarrow> n < 6"
    by (rule bit_less_2p)
  show ?thesis
    unfolding uchar_eq
    by (rule bit_word_eqI) (auto simp add: encoded_type_bit bit_simps dest: *)
qed

lemma encoded_type_consts [simp]:
  "encoded_type 0x40 = 0x40" "encoded_type 0x80 = 0x80" "encoded_type 0xC0 = 0xC0"
  by (simp_all add: encoded_type_def)

lemma uchar_small: "len < 64 \<Longrightarrow> uchar len = len"
proof -
  assume "len < 64"
  then have "len < 2 ^ 8" by (simp add: word_less_nat_alt)
  then show ?thesis unfolding uchar_eq by (rule take_bit_small)
qed

lemma ucast_ucast_uchar [simp]: "(ucast (ucast (uchar x) :: byte) :: 32 word) = uchar x"
  unfolding uchar_eq by (rule bit_word_eqI) (auto simp add: bit_simps)

text \<open>
  What the encoder stores: every shifted operand is \<^verbatim>\<open>(unsigned char)length\<close>, whose
  bits from 8 on are zero, so the bytes before the last hold the two-bit prefix only.
\<close>

lemma encoded_length_bytes_eq:
  "bitset_encoded_length_bytes len =
     (if len < 64 then [ucast (uchar len)]
      else if len < 2 ^ 14 then [0x40, ucast (uchar len)]
      else if len < 2 ^ 22 then [0x80, 0, ucast (uchar len)]
      else [0xC0, 0, 0, ucast (uchar len)])"
  by (simp add: bitset_encoded_length_bytes_def)

lemma length_encoded_length_bytes:
  "length (bitset_encoded_length_bytes n) = bitset_encoded_length_required_bytes n"
  by (simp add: encoded_length_bytes_eq bitset_encoded_length_required_bytes_def)

lemma encoded_length_size_bytes:
  "bitset_encoded_length_size (bitset_encoded_length_bytes n @ rest)
     = Some (bitset_encoded_length_required_bytes n)"
  by (simp add: encoded_length_bytes_eq bitset_encoded_length_required_bytes_def
      bitset_encoded_length_size_def byte_at_def encoded_type_small)

lemma encoded_length_decoded:
  "bitset_encoded_length (bitset_encoded_length_bytes n @ rest)
     = Some (if n < 64 then n else uchar n)"
proof (cases "n < 64")
  case True
  then have "bitset_encoded_length (bitset_encoded_length_bytes n @ rest)
      = Some (ucast (ucast (uchar n) :: byte))"
    by (simp add: encoded_length_bytes_eq bitset_encoded_length_def byte_at_def
        encoded_type_small)
  also have "ucast (ucast (uchar n) :: byte) = uchar n"
    by (rule ucast_ucast_uchar)
  also have "uchar n = n"
    using True by (rule uchar_small)
  finally show ?thesis
    using True by simp
next
  case False
  then show ?thesis
    by (simp add: encoded_length_bytes_eq bitset_encoded_length_def byte_at_def)
qed

text \<open>
  C2 at \<open>n = 256\<close>: the encoder takes the two-byte form, the shortest one, but stores
  \<open>[0x40, 0x00]\<close>, since \<^verbatim>\<open>(unsigned char)length >> 8\<close> is 0; the decoder reads 0 back.
\<close>

theorem encoded_length_256_reads_back_0:
  "bitset_encoded_length_required_bytes 256 = 2
   \<and> bitset_encoded_length_bytes 256 = [0x40, 0x00]
   \<and> bitset_encoded_length (bitset_encoded_length_bytes 256) = Some 0"
  by (simp add: bitset_encoded_length_required_bytes_def encoded_length_bytes_eq
      bitset_encoded_length_def byte_at_def uchar_eq)

text \<open>
  C9: for every \<open>n\<close>, the reader's \<^verbatim>\<open>bitset_encoded_length_size\<close>, applied to the bytes
  the writer stored (whatever follows them), is the number of bytes
  \<^verbatim>\<open>bitset_encoded_length_required_bytes\<close> reserved, which is the number of bytes written.
\<close>

theorem encoded_length_size_is_required_bytes:
  "bitset_encoded_length_size (bitset_encoded_length_bytes n @ rest)
     = Some (bitset_encoded_length_required_bytes n)
   \<and> length (bitset_encoded_length_bytes n) = bitset_encoded_length_required_bytes n"
  by (simp add: encoded_length_size_bytes length_encoded_length_bytes)

section \<open>Properties of the list\<close>

lemma or_nat_less_exp:
  fixes a b :: nat
  assumes "a < 2 ^ n" "b < 2 ^ n"
  shows "a OR b < 2 ^ n"
proof -
  have "int a < int (2 ^ n)" "int b < int (2 ^ n)"
    using assms by (simp_all only: of_nat_less_iff)
  then have "int a < 2 ^ n" "int b < 2 ^ n"
    by simp_all
  then have "int a OR int b < 2 ^ n"
    by (intro OR_upper) simp_all
  then have "int (a OR b) < int (2 ^ n)"
    by (simp add: of_nat_or_eq)
  then show ?thesis
    by (simp only: of_nat_less_iff)
qed

lemma or_drop_bit_bounds:
  fixes d :: "32 word"
  assumes "unat d < 2 ^ n"
  shows "unat (d OR drop_bit k d) < 2 ^ n" and "d \<le> d OR drop_bit k d"
proof -
  have "unat (drop_bit k d) = drop_bit k (unat d)"
    by (rule unat_drop_bit_eq)
  also have "\<dots> = unat d div 2 ^ k"
    by (rule drop_bit_eq_div)
  also have "\<dots> \<le> unat d"
    by (rule div_le_dividend)
  finally have "unat (drop_bit k d) < 2 ^ n"
    using assms by simp
  with assms have "unat d OR unat (drop_bit k d) < 2 ^ n"
    by (rule or_nat_less_exp)
  then show "unat (d OR drop_bit k d) < 2 ^ n"
    by (simp only: unsigned_or_eq)
  show "d \<le> d OR drop_bit k d"
    by (rule le_word_or2)
qed

text \<open>Up to \<open>2 ^ 31\<close>, \<^verbatim>\<open>BITSET_NEXT_POW2\<close> gives a size that holds the length.\<close>

lemma BITSET_NEXT_POW2_ge:
  assumes "n \<le> 2 ^ 31"
  shows "n \<le> unat (BITSET_NEXT_POW2 (of_nat n))"
proof (cases "n = 0")
  case True
  then show ?thesis by simp
next
  case False
  define s :: "32 word" where "s = of_nat n"
  define d0 where "d0 = s - 1"
  define d1 where "d1 = d0 OR drop_bit 1 d0"
  define d2 where "d2 = d1 OR drop_bit 2 d1"
  define d3 where "d3 = d2 OR drop_bit 4 d2"
  define d4 where "d4 = d3 OR drop_bit 8 d3"
  define d5 where "d5 = d4 OR drop_bit 16 d4"
  have "n < 2 ^ 32"
    using assms by simp
  then have n: "unat s = n"
    unfolding s_def by (simp add: unat_of_nat)
  then have "s \<noteq> 0" using False by auto
  then have d0: "unat d0 = n - 1"
    unfolding d0_def using n by (simp add: unat_minus_one)
  with assms False have b0: "unat d0 < 2 ^ 31"
    by simp
  note b1 = or_drop_bit_bounds [OF b0, of 1, folded d1_def]
  note b2 = or_drop_bit_bounds [OF b1(1), of 2, folded d2_def]
  note b3 = or_drop_bit_bounds [OF b2(1), of 4, folded d3_def]
  note b4 = or_drop_bit_bounds [OF b3(1), of 8, folded d4_def]
  note b5 = or_drop_bit_bounds [OF b4(1), of 16, folded d5_def]
  have "d0 \<le> d5"
    using b1(2) b2(2) b3(2) b4(2) b5(2) by simp
  then have "n - 1 \<le> unat d5"
    using d0 by (simp add: word_le_nat_alt)
  moreover have "unat (d5 + 1) = unat d5 + 1"
    using b5(1) by (simp add: unat_word_ariths)
  moreover have "BITSET_NEXT_POW2 s = d5 + 1"
    by (simp add: BITSET_NEXT_POW2_def Let_def d0_def d1_def d2_def d3_def d4_def d5_def)
  ultimately show ?thesis
    unfolding s_def by simp
qed

text \<open>The byte count that \<^verbatim>\<open>bitset_list_push\<close> hands to \<^verbatim>\<open>bitset_list_resize\<close>.\<close>

lemma pushed_length_sum:
  "l_length c + of_nat (bitset_encoded_length_required_bytes (of_nat (b_length b)))
     + of_nat (bitset_encoded_length_required_bytes (offset - l_tail_offset c))
     + of_nat (b_length b) * 4
   = pushed_length c b offset"
  by (simp add: pushed_length_def entry_size_def)

lemma entry_size_sum:
  "unat (l_length c) + bitset_encoded_length_required_bytes (offset - l_tail_offset c)
     + bitset_encoded_length_required_bytes (of_nat (b_length b)) + b_length b * 4
   = unat (l_length c) + entry_size c b offset"
  by (simp add: entry_size_def)

lemma unat_pushed_length:
  assumes "unat (l_length c) + entry_size c b offset \<le> 2 ^ 31"
  shows "unat (pushed_length c b offset) = unat (l_length c) + entry_size c b offset"
proof -
  have "pushed_length c b offset = of_nat (unat (l_length c) + entry_size c b offset)"
    by (simp add: pushed_length_def)
  moreover have "unat (l_length c) + entry_size c b offset < 2 ^ 32"
    using assms by simp
  ultimately show ?thesis
    by (simp only: unat_of_nat) simp
qed

text \<open>
  The three ways of \<^verbatim>\<open>bitset_list_push\<close>, one by one: the offset below the tail
  offset; the buffer that must grow and cannot; and the entry that fits.
\<close>

lemma push_below_tail_offset:
  assumes "offset < l_tail_offset c"
  shows "bitset_list_push alloc c b offset = Exited 1 c"
  using assms by (simp add: bitset_list_push_def)

lemma push_out_of_memory:
  assumes "l_tail_offset c \<le> offset" and "out_of_memory alloc c b offset"
  shows "bitset_list_push alloc c b offset
     = Exited 1 (c\<lparr>l_count := l_count c + 1, l_buffer := []\<rparr>)"
proof -
  from assms(1) have "\<not> offset < l_tail_offset c"
    by simp
  moreover from assms(2) have "l_size c < pushed_length c b offset"
    and "\<not> alloc (unat (BITSET_NEXT_POW2 (pushed_length c b offset)))"
    by (simp_all add: out_of_memory_def)
  ultimately show ?thesis
    by (simp add: bitset_list_push_def Let_def pushed_length_sum bitset_list_resize_def)
qed

lemma push_returns:
  assumes "l_tail_offset c \<le> offset" and "\<not> out_of_memory alloc c b offset"
    and "unat (l_length c) + entry_size c b offset \<le> 2 ^ 31"
  shows "\<exists>c'. bitset_list_push alloc c b offset = Returned c'
     \<and> l_tail_offset c' = offset \<and> l_count c' = l_count c + 1
     \<and> l_tail c' = Some (unat (l_length c))
     \<and> unat (l_length c') = unat (l_length c) + entry_size c b offset"
proof -
  let ?n = "pushed_length c b offset"
  from assms(1) have ge: "\<not> offset < l_tail_offset c"
    by simp
  note un = unat_pushed_length [OF assms(3)]
  show ?thesis
  proof (cases "l_size c < ?n")
    case True
    with assms(2) have granted: "alloc (unat (BITSET_NEXT_POW2 ?n))"
      by (simp add: out_of_memory_def)
    have "unat ?n \<le> unat (BITSET_NEXT_POW2 (of_nat (unat ?n)))"
      using assms(3) un by (intro BITSET_NEXT_POW2_ge) simp
    then have "unat (l_length c) + entry_size c b offset \<le> unat (BITSET_NEXT_POW2 ?n)"
      by (simp add: un [symmetric])
    with True granted ge un show ?thesis
      by (simp add: bitset_list_push_def Let_def pushed_length_sum entry_size_sum
          bitset_list_resize_def)
  next
    case False
    then have "?n \<le> l_size c"
      by simp
    then have "unat (l_length c) + entry_size c b offset \<le> unat (l_size c)"
      by (simp add: word_le_nat_alt un)
    with False ge un show ?thesis
      by (simp add: bitset_list_push_def Let_def pushed_length_sum entry_size_sum
          bitset_list_resize_def)
  qed
qed

lemma push_exited_only:
  assumes "bitset_list_push alloc c b offset = Exited n s"
  shows "offset < l_tail_offset c \<or> out_of_memory alloc c b offset"
proof (rule ccontr)
  assume "\<not> (offset < l_tail_offset c \<or> out_of_memory alloc c b offset)"
  then have ge: "\<not> offset < l_tail_offset c" and mem: "\<not> out_of_memory alloc c b offset"
    by simp_all
  show False
  proof (cases "l_size c < pushed_length c b offset")
    case True
    with mem have "alloc (unat (BITSET_NEXT_POW2 (pushed_length c b offset)))"
      by (simp add: out_of_memory_def)
    with True ge assms show False
      by (simp add: bitset_list_push_def Let_def pushed_length_sum bitset_list_resize_def
          split: if_splits)
  next
    case False
    with ge assms show False
      by (simp add: bitset_list_push_def Let_def pushed_length_sum bitset_list_resize_def
          split: if_splits)
  qed
qed

text \<open>
  C4, with the exit of \<^verbatim>\<open>bitset_oom()\<close>. \<^verbatim>\<open>bitset_list_push\<close> exits with status 1 when the
  offset is below the tail offset, the list being then as it was, the test being the
  first statement. With an offset at or above the tail offset, equality included, it
  exits with status 1 when the buffer must grow and the allocator refuses, the entry
  count being already incremented and the buffer pointer lost; and it returns when that
  is not so and the bytes of the list with the new entry are at most \<open>2 ^ 31\<close>, with the
  offset as the new tail offset, one entry more, and the tail at the old end of the
  buffer. These are its only exits.
\<close>

theorem bitset_list_push_exits:
  "(offset < l_tail_offset c \<longrightarrow> bitset_list_push alloc c b offset = Exited 1 c)
   \<and> (l_tail_offset c \<le> offset \<and> out_of_memory alloc c b offset \<longrightarrow>
        bitset_list_push alloc c b offset
          = Exited 1 (c\<lparr>l_count := l_count c + 1, l_buffer := []\<rparr>))
   \<and> (l_tail_offset c \<le> offset \<and> \<not> out_of_memory alloc c b offset
        \<and> unat (l_length c) + entry_size c b offset \<le> 2 ^ 31 \<longrightarrow>
        (\<exists>c'. bitset_list_push alloc c b offset = Returned c'
              \<and> l_tail_offset c' = offset \<and> l_count c' = l_count c + 1
              \<and> l_tail c' = Some (unat (l_length c))
              \<and> unat (l_length c') = unat (l_length c) + entry_size c b offset))
   \<and> ((\<exists>n s. bitset_list_push alloc c b offset = Exited n s)
        \<longleftrightarrow> offset < l_tail_offset c \<or> out_of_memory alloc c b offset)"
proof -
  have "\<exists>n s. bitset_list_push alloc c b offset = Exited n s"
    if "offset < l_tail_offset c \<or> out_of_memory alloc c b offset"
  proof (cases "offset < l_tail_offset c")
    case True
    then show ?thesis
      by (simp add: push_below_tail_offset)
  next
    case False
    then have "l_tail_offset c \<le> offset"
      by simp
    moreover from False that have "out_of_memory alloc c b offset"
      by simp
    ultimately show ?thesis
      by (simp add: push_out_of_memory)
  qed
  then show ?thesis
    using push_below_tail_offset push_out_of_memory push_returns push_exited_only
    by blast
qed

text \<open>
  On a list with tail offset 3 and no bytes: the offset 2 exits, the list unchanged;
  the offset 3 exits when the allocator refuses the first buffer, with one entry
  counted; and the offset 3 returns when the allocator grants it.
\<close>

theorem bitset_list_push_exits_witness:
  "bitset_list_push granted (bitset_list_new\<lparr>l_tail_offset := 3\<rparr>) \<lparr>b_words = []\<rparr> 2
     = Exited 1 (bitset_list_new\<lparr>l_tail_offset := 3\<rparr>)
   \<and> bitset_list_push refused (bitset_list_new\<lparr>l_tail_offset := 3\<rparr>) \<lparr>b_words = []\<rparr> 3
     = Exited 1 (bitset_list_new\<lparr>l_tail_offset := 3, l_count := 1\<rparr>)
   \<and> (\<exists>c'. bitset_list_push granted (bitset_list_new\<lparr>l_tail_offset := 3\<rparr>) \<lparr>b_words = []\<rparr> 3
            = Returned c'
          \<and> l_tail_offset c' = 3 \<and> l_count c' = 1 \<and> l_tail c' = Some 0
          \<and> unat (l_length c') = 2)"
proof -
  let ?c = "bitset_list_new\<lparr>l_tail_offset := 3\<rparr>"
  let ?b = "\<lparr>b_words = []\<rparr>"
  have size: "entry_size ?c ?b 3 = 2"
    by (simp add: entry_size_def bitset_encoded_length_required_bytes_def b_length_def)
  have len: "l_length ?c = 0" "l_size ?c = 0" "l_count ?c = 0" "l_tail_offset ?c = 3"
    by (simp_all add: bitset_list_new_def)
  have grows: "l_size ?c < pushed_length ?c ?b 3"
    by (simp add: pushed_length_def size len)
  have lt: "(2 :: 32 word) < l_tail_offset ?c" and le: "l_tail_offset ?c \<le> (3 :: 32 word)"
    by (simp_all add: len)
  have no: "out_of_memory refused ?c ?b 3"
    using grows by (simp add: out_of_memory_def refused_def)
  have yes: "\<not> out_of_memory granted ?c ?b 3"
    by (simp add: out_of_memory_def granted_def)
  have fits: "unat (l_length ?c) + entry_size ?c ?b 3 \<le> 2 ^ 31"
    by (simp add: size len)
  from bitset_list_push_exits [of 2 ?c granted ?b] lt
  have first: "bitset_list_push granted ?c ?b 2 = Exited 1 ?c"
    by blast
  from bitset_list_push_exits [of 3 ?c refused ?b] le no
  have "bitset_list_push refused ?c ?b 3 = Exited 1 (?c\<lparr>l_count := l_count ?c + 1, l_buffer := []\<rparr>)"
    by blast
  then have second: "bitset_list_push refused ?c ?b 3
      = Exited 1 (bitset_list_new\<lparr>l_tail_offset := 3, l_count := 1\<rparr>)"
    by (simp add: bitset_list_new_def)
  from bitset_list_push_exits [of 3 ?c granted ?b] le yes fits
  have "\<exists>c'. bitset_list_push granted ?c ?b 3 = Returned c'
          \<and> l_tail_offset c' = 3 \<and> l_count c' = l_count ?c + 1
          \<and> l_tail c' = Some (unat (l_length ?c))
          \<and> unat (l_length c') = unat (l_length ?c) + entry_size ?c ?b 3"
    by blast
  then have third: "\<exists>c'. bitset_list_push granted ?c ?b 3 = Returned c'
          \<and> l_tail_offset c' = 3 \<and> l_count c' = 1 \<and> l_tail c' = Some 0
          \<and> unat (l_length c') = 2"
    by (simp only: size len unsigned_0 add_0)
  from first second third show ?thesis
    by (intro conjI)
qed

text \<open>
  C4 as stated fails on a new list, whose tail offset is 0, for the offset 0 and an
  allocator that refuses the first buffer: the offset is not below the tail offset,
  and \<^verbatim>\<open>bitset_list_push\<close> exits with status 1, one entry counted.
\<close>

theorem bitset_list_push_exits_out_of_memory:
  "l_tail_offset bitset_list_new \<le> 0
   \<and> bitset_list_push refused bitset_list_new \<lparr>b_words = []\<rparr> 0
       = Exited 1 \<lparr>l_buffer = [], l_length = 0, l_size = 0, l_count = 1, l_tail_offset = 0,
                   l_tail = None\<rparr>"
  by code_simp

text \<open>
  C3 at the list made by pushing an empty bitset at offset 256 onto a new list: the
  buffer is \<open>[0x40, 0, 0]\<close> and the tail offset 256; \<^verbatim>\<open>bitset_list_new_buffer\<close> on
  these three bytes derives the tail offset 0.
\<close>

theorem new_buffer_loses_tail_offset:
  "bitset_list_push granted bitset_list_new \<lparr>b_words = []\<rparr> 256
     = Returned \<lparr>l_buffer = [0x40, 0, 0], l_length = 3, l_size = 4, l_count = 1,
                 l_tail_offset = 256, l_tail = Some 0\<rparr>
   \<and> bitset_list_new_buffer 3 [0x40, 0, 0]
     = Some \<lparr>l_buffer = [0x40, 0, 0], l_length = 3, l_size = 3, l_count = 1,
             l_tail_offset = 0, l_tail = Some 0\<rparr>"
  by code_simp

section \<open>Properties of the iterator\<close>

text \<open>
  The list of the test suite and of the specification's scenario 6, built by two
  pushes: the bitset \<open>{10}\<close>, one word, at offset 3 and the bitset \<open>{100, 1000}\<close>, two
  words, at offset 10. The iterator of the window \<open>[3, 10)\<close> yields the entry at
  offset 3 only, the one of \<open>[4, 5)\<close> none, and the one of the full range both in order.
\<close>

lemma iterator_scenario_6:
  "bitset_list_push granted bitset_list_new \<lparr>b_words = [BITSET_CREATE_FILL 0 10]\<rparr> 3
     = Returned \<lparr>l_buffer = [3, 1, 0, 0, 0, 0xAC], l_length = 6, l_size = 8, l_count = 1,
                 l_tail_offset = 3, l_tail = Some 0\<rparr>"
  "bitset_list_push granted
     \<lparr>l_buffer = [3, 1, 0, 0, 0, 0xAC], l_length = 6, l_size = 8, l_count = 1,
      l_tail_offset = 3, l_tail = Some 0\<rparr>
     \<lparr>b_words = [BITSET_CREATE_FILL 3 7, BITSET_CREATE_FILL 28 8]\<rparr> 10
     = Returned \<lparr>l_buffer = [3, 1, 0, 0, 0, 0xAC, 7, 2, 3, 0, 0, 0xA0, 28, 0, 0, 0xA4],
                 l_length = 16, l_size = 16, l_count = 2, l_tail_offset = 10, l_tail = Some 6\<rparr>"
  "iterator_yields
     \<lparr>l_buffer = [3, 1, 0, 0, 0, 0xAC, 7, 2, 3, 0, 0, 0xA0, 28, 0, 0, 0xA4],
      l_length = 16, l_size = 16, l_count = 2, l_tail_offset = 10, l_tail = Some 6\<rparr> 3 10
     = Some [(Some 3, Some [BITSET_CREATE_FILL 0 10])]"
  "iterator_yields
     \<lparr>l_buffer = [3, 1, 0, 0, 0, 0xAC, 7, 2, 3, 0, 0, 0xA0, 28, 0, 0, 0xA4],
      l_length = 16, l_size = 16, l_count = 2, l_tail_offset = 10, l_tail = Some 6\<rparr> 4 5
     = Some []"
  "iterator_yields
     \<lparr>l_buffer = [3, 1, 0, 0, 0, 0xAC, 7, 2, 3, 0, 0, 0xA0, 28, 0, 0, 0xA4],
      l_length = 16, l_size = 16, l_count = 2, l_tail_offset = 10, l_tail = Some 6\<rparr>
     BITSET_LIST_START BITSET_LIST_END
     = Some [(Some 3, Some [BITSET_CREATE_FILL 0 10]),
             (Some 10, Some [BITSET_CREATE_FILL 3 7, BITSET_CREATE_FILL 28 8])]"
  by code_simp+

text \<open>
  C5 at the list made by one push, of the bitset \<open>{10}\<close> at offset 256, onto a new
  list. The push returns, with tail offset 256; the relative offset 256 is stored as
  \<open>[0x40, 0x00]\<close>. The list holds one entry, at absolute offset 256: the iterator of
  the window \<open>[256, 257)\<close> yields nothing, and the iterator of the window \<open>[0, 1)\<close>
  yields that entry, with the offset 0.
\<close>

theorem iterator_window_misses_pushed_offset:
  "bitset_list_push granted bitset_list_new \<lparr>b_words = [BITSET_CREATE_FILL 0 10]\<rparr> 256
     = Returned \<lparr>l_buffer = [0x40, 0, 1, 0, 0, 0, 0xAC], l_length = 7, l_size = 8, l_count = 1,
                 l_tail_offset = 256, l_tail = Some 0\<rparr>
   \<and> iterator_yields
       \<lparr>l_buffer = [0x40, 0, 1, 0, 0, 0, 0xAC], l_length = 7, l_size = 8, l_count = 1,
        l_tail_offset = 256, l_tail = Some 0\<rparr> 256 257
     = Some []
   \<and> iterator_yields
       \<lparr>l_buffer = [0x40, 0, 1, 0, 0, 0, 0xAC], l_length = 7, l_size = 8, l_count = 1,
        l_tail_offset = 256, l_tail = Some 0\<rparr> 0 1
     = Some [(Some 0, Some [BITSET_CREATE_FILL 0 10])]"
  by code_simp

text \<open>
  C10 at the list made by two pushes onto a new list, of the bitset \<open>{10}\<close> at offset
  3 and of the bitset \<open>{100, 1000}\<close> at offset 300. Both pushes return; the relative
  offset 297 of the second is stored as \<open>[0x40, 0x29]\<close>. With \<open>end' = 0\<close> and
  \<open>start = 100\<close> the iterator yields nothing, the entry pushed at offset 300 not
  included; with \<open>start = 4\<close> it yields that entry with the offset 44.
\<close>

theorem iterator_end_zero_misses_pushed_offset:
  "bitset_list_push granted bitset_list_new \<lparr>b_words = [BITSET_CREATE_FILL 0 10]\<rparr> 3
     = Returned \<lparr>l_buffer = [3, 1, 0, 0, 0, 0xAC], l_length = 6, l_size = 8, l_count = 1,
                 l_tail_offset = 3, l_tail = Some 0\<rparr>
   \<and> bitset_list_push granted
       \<lparr>l_buffer = [3, 1, 0, 0, 0, 0xAC], l_length = 6, l_size = 8, l_count = 1,
        l_tail_offset = 3, l_tail = Some 0\<rparr>
       \<lparr>b_words = [BITSET_CREATE_FILL 3 7, BITSET_CREATE_FILL 28 8]\<rparr> 300
     = Returned \<lparr>l_buffer = [3, 1, 0, 0, 0, 0xAC, 0x40, 0x29, 2, 3, 0, 0, 0xA0, 28, 0, 0, 0xA4],
                 l_length = 17, l_size = 32, l_count = 2, l_tail_offset = 300, l_tail = Some 6\<rparr>
   \<and> iterator_yields
       \<lparr>l_buffer = [3, 1, 0, 0, 0, 0xAC, 0x40, 0x29, 2, 3, 0, 0, 0xA0, 28, 0, 0, 0xA4],
        l_length = 17, l_size = 32, l_count = 2, l_tail_offset = 300, l_tail = Some 6\<rparr> 100 0
     = Some []
   \<and> iterator_yields
       \<lparr>l_buffer = [3, 1, 0, 0, 0, 0xAC, 0x40, 0x29, 2, 3, 0, 0, 0xA0, 28, 0, 0, 0xA4],
        l_length = 17, l_size = 32, l_count = 2, l_tail_offset = 300, l_tail = Some 6\<rparr> 4 0
     = Some [(Some 44, Some [BITSET_CREATE_FILL 3 7, BITSET_CREATE_FILL 28 8])]"
  by code_simp

end
